theory Spec2Isabelle
  imports Main "HOL-Library.Sublist"
begin

section \<open>The CSV/Excel merger of \<^verbatim>\<open>app.py\<close>: model\<close>

text \<open>
  The program is one function, \<^verbatim>\<open>main\<close>, that reads the files of an uploaded archive,
  normalizes every table's header, skips the tables that lack a canonical column, projects
  the others onto the canonical columns and stacks them. The library calls it makes
  (Python's \<^verbatim>\<open>str\<close> methods, \<^verbatim>\<open>re\<close>, \<^verbatim>\<open>pathlib\<close>, pandas) are modelled below as far as
  \<^verbatim>\<open>main\<close> uses them; the two parsers \<^verbatim>\<open>pd.read_csv\<close> and \<^verbatim>\<open>pd.read_excel\<close> are
  parameters of the model.
\<close>

subsection \<open>Strings\<close>

text \<open>
  A Python \<^verbatim>\<open>str\<close> is a sequence of code points. A \<^typ>\<open>char\<close> stands for a code point
  below 256, read through \<^const>\<open>of_char\<close>; on these, \<^verbatim>\<open>str.isspace\<close> (which is also what
  \<^verbatim>\<open>\s\<close> matches in a \<^verbatim>\<open>str\<close> pattern and what \<^verbatim>\<open>str.strip()\<close> removes) holds of
  the code points 9 to 13, 28 to 32, 133 and 160, and \<^verbatim>\<open>str.lower\<close> adds 32 to the
  code points 65 to 90 (A to Z) and 192 to 222 except 215. Labels with code points
  from 256 on are outside the model, and so are labels that are not strings. The
  \<^verbatim>\<open>.str\<close> methods of a pandas index of Python strings apply the \<^verbatim>\<open>str\<close> method of the
  same name, or \<^verbatim>\<open>re.sub\<close>, to each label.
\<close>

definition isspace :: "char \<Rightarrow> bool" where
  "isspace c = (of_char c \<in> {9, 10, 11, 12, 13, 28, 29, 30, 31, 32, 133, 160 :: nat})"

definition lower_char :: "char \<Rightarrow> char" where
  "lower_char c =
     (let n = of_char c :: nat
      in if (65 \<le> n \<and> n \<le> 90) \<or> (192 \<le> n \<and> n \<le> 222 \<and> n \<noteq> 215)
         then char_of (n + 32) else c)"

definition str_lower :: "string \<Rightarrow> string" where
  "str_lower s = map lower_char s"

definition str_lstrip :: "string \<Rightarrow> string" where
  "str_lstrip s = dropWhile isspace s"

definition str_rstrip :: "string \<Rightarrow> string" where
  "str_rstrip s = rev (dropWhile isspace (rev s))"

definition str_strip :: "string \<Rightarrow> string" where
  "str_strip s = str_rstrip (str_lstrip s)"

text \<open>
  \<^verbatim>\<open>re.sub(r"\s*-\s*", " - ", s)\<close>, which is what
  \<^verbatim>\<open>.str.replace(r"\s*-\s*", " - ", regex=True)\<close> runs on each label (line 102). The
  scan goes left to right. At a position the pattern matches iff the longest run of
  whitespace starting there is followed by a hyphen (a shorter run is followed by
  whitespace, so backtracking finds nothing more); the match then takes the whitespace
  after the hyphen as well, is replaced by \<^verbatim>\<open>" - "\<close>, and the scan goes on behind it.
  Where the pattern does not match, the character is copied. The pattern never matches the
  empty string.
\<close>

function re_sub_hyphen :: "string \<Rightarrow> string" where
  "re_sub_hyphen [] = []"
| "re_sub_hyphen (c # cs) =
     (case dropWhile isspace (c # cs) of
        [] \<Rightarrow> c # re_sub_hyphen cs
      | d # rest \<Rightarrow>
          if d = CHR ''-'' then '' - '' @ re_sub_hyphen (dropWhile isspace rest)
          else c # re_sub_hyphen cs)"
  by pat_completeness auto
termination
proof (relation "measure length")
  show "wf (measure length)" by simp
next
  fix c cs d rest
  assume "dropWhile isspace (c # cs) = d # rest"
  then have "length (d # rest) \<le> length (c # cs)"
    by (metis length_dropWhile_le)
  moreover have "length (dropWhile isspace rest) \<le> length rest"
    by (rule length_dropWhile_le)
  ultimately show "(dropWhile isspace rest, c # cs) \<in> measure length" by simp
qed simp_all

text \<open>Lines 100 to 104, on one label: strip, fix the hyphen spacing, lowercase.\<close>

definition normalize_label :: "string \<Rightarrow> string" where
  "normalize_label s = str_lower (re_sub_hyphen (str_strip s))"

text \<open>\<^verbatim>\<open>str.split(sep)\<close> for a one-character separator.\<close>

fun split_on :: "char \<Rightarrow> string \<Rightarrow> string list" where
  "split_on sep [] = [[]]"
| "split_on sep (c # cs) =
     (if c = sep then [] # split_on sep cs
      else (case split_on sep cs of [] \<Rightarrow> [[c]] | p # ps \<Rightarrow> (c # p) # ps))"

text \<open>
  The hyphen rule in the words of the specification, to compare \<^const>\<open>re_sub_hyphen\<close>
  with: the label is cut at its hyphens; a piece loses its whitespace on each side where
  it touches a hyphen; the pieces are put together again with \<^verbatim>\<open>" - "\<close> for each hyphen.
\<close>

fun join_pieces :: "string list \<Rightarrow> string" where
  "join_pieces [] = []"
| "join_pieces [p] = p"
| "join_pieces (p # q # ps) = str_rstrip p @ '' - '' @ join_pieces (str_lstrip q # ps)"

definition spec_hyphen_spacing :: "string \<Rightarrow> string" where
  "spec_hyphen_spacing s = join_pieces (split_on CHR ''-'' s)"

subsection \<open>File names\<close>

text \<open>
  \<^verbatim>\<open>(tmp_path / file).suffix\<close> (line 55), for POSIX paths and the \<^verbatim>\<open>pathlib\<close> of
  Python 3.13 and before: the path's name is its last component, where empty components
  and \<^verbatim>\<open>.\<close> components do not count; the suffix is the name from its last dot on, unless
  that dot is the first or the last character of the name. When \<^verbatim>\<open>file\<close> has no component
  the name is the temporary directory's, which \<^verbatim>\<open>tempfile\<close> makes of letters, digits and
  underscores: it has no dot and the suffix is empty, as it is for the empty name here.
\<close>

definition path_name :: "string \<Rightarrow> string" where
  "path_name file =
     (case filter (\<lambda>p. p \<noteq> [] \<and> p \<noteq> ''.'') (split_on CHR ''/'' file) of
        [] \<Rightarrow> []
      | p # ps \<Rightarrow> last (p # ps))"

definition rfind :: "string \<Rightarrow> char \<Rightarrow> int" where
  "rfind s ch =
     (case filter (\<lambda>i. s ! i = ch) (rev [0..<length s]) of
        [] \<Rightarrow> - 1
      | i # _ \<Rightarrow> int i)"

definition path_suffix :: "string \<Rightarrow> string" where
  "path_suffix file =
     (let name = path_name file; i = rfind name CHR ''.''
      in if 0 < i \<and> i < int (length name) - 1 then drop (nat i) name else [])"

definition supported_extensions :: "string list" where
  "supported_extensions = [''.csv'', ''.xlsx'', ''.xls'']"

datatype reader = Read_csv | Read_excel

text \<open>
  Lines 55 to 65 without their effects: which parser a file goes to, \<^const>\<open>None\<close> when
  the file is skipped as unsupported.
\<close>

definition reader_for :: "string \<Rightarrow> reader option" where
  "reader_for file =
     (let ext = str_lower (path_suffix file)
      in if ext \<notin> set supported_extensions then None
         else if ext = ''.csv'' then Some Read_csv
         else Some Read_excel)"

subsection \<open>Data frames\<close>

text \<open>
  A data frame is its column labels, in position order and possibly with repetitions, and
  its rows, each with one cell per column. The type of cells is a parameter: the program
  never looks at a cell.
\<close>

record 'v dataframe =
  df_columns :: "string list"
  df_rows :: "'v list list"

definition len_df :: "'v dataframe \<Rightarrow> nat" where
  "len_df df = length (df_rows df)"

datatype py_error =
    KeyError
  | ValueError
  | Not_modelled

text \<open>
  \<^verbatim>\<open>df[keys]\<close> for a list of labels: pandas computes the positions of the columns to take
  (\<^verbatim>\<open>Index._get_indexer_strict\<close>), raising \<^verbatim>\<open>KeyError\<close> when a key is not a label, and
  takes these columns. For each key, in the order of the keys, the positions are those of
  all the columns that carry the label, so a label that occurs twice in the frame
  contributes two columns.
\<close>

definition get_indexer :: "string list \<Rightarrow> string list \<Rightarrow> py_error + nat list" where
  "get_indexer cols keys =
     (if set keys \<subseteq> set cols
      then Inr (concat (map (\<lambda>k. filter (\<lambda>i. cols ! i = k) [0..<length cols]) keys))
      else Inl KeyError)"

definition take_columns :: "nat list \<Rightarrow> 'v dataframe \<Rightarrow> 'v dataframe" where
  "take_columns idx df =
     \<lparr>df_columns = map (\<lambda>i. df_columns df ! i) idx,
      df_rows = map (\<lambda>r. map (\<lambda>i. r ! i) idx) (df_rows df)\<rparr>"

definition getitem :: "'v dataframe \<Rightarrow> string list \<Rightarrow> py_error + 'v dataframe" where
  "getitem df keys =
     (case get_indexer (df_columns df) keys of
        Inl e \<Rightarrow> Inl e
      | Inr idx \<Rightarrow> Inr (take_columns idx df))"

text \<open>
  \<^verbatim>\<open>df.columns = labels\<close>: pandas raises \<^verbatim>\<open>ValueError\<close> (length mismatch) unless there
  is one label per column.
\<close>

definition set_columns :: "'v dataframe \<Rightarrow> string list \<Rightarrow> py_error + 'v dataframe" where
  "set_columns df labels =
     (if length labels \<noteq> length (df_columns df) then Inl ValueError
      else Inr (df\<lparr>df_columns := labels\<rparr>))"

text \<open>
  \<^verbatim>\<open>pd.concat(dfs, ignore_index=True)\<close>: \<^verbatim>\<open>ValueError\<close> on the empty list. On frames
  that all carry the same labels, without repetition and in the same order, it stacks the
  rows in the order of the list and numbers them anew. On other frames pandas aligns the
  columns by label; the model does not cover that (\<^const>\<open>Not_modelled\<close>), and
  \<^verbatim>\<open>main\<close> never gets there: every frame it stacks carries the canonical labels
  (lemmas \<open>pd_concat_canonical\<close> and \<open>main_eq\<close> below).
\<close>

definition pd_concat :: "'v dataframe list \<Rightarrow> py_error + 'v dataframe" where
  "pd_concat dfs =
     (case dfs of
        [] \<Rightarrow> Inl ValueError
      | d # ds \<Rightarrow>
          if list_all (\<lambda>d'. df_columns d' = df_columns d) ds \<and> distinct (df_columns d)
          then Inr \<lparr>df_columns = df_columns d, df_rows = concat (map df_rows dfs)\<rparr>
          else Inl Not_modelled)"

subsection \<open>The program\<close>

text \<open>Lines 76 to 94.\<close>

definition columns :: "string list" where
  "columns =
     [''External Code'',
      ''Processing Group Code'',
      ''Processing Group Description'',
      ''Best External Description - Current'',
      ''Current Nielsen Item ID'',
      ''Predicted Barcode - Current'',
      ''Price - Current'',
      ''Retailer SKU - Current'',
      ''Module'',
      ''Brand'',
      ''URL'',
      ''Category'',
      ''Allocation'',
      ''Yes/No'',
      ''GIC'',
      ''Date'']"

definition columns_lower :: "string list" where
  "columns_lower = map str_lower columns"

text \<open>
  Lines 100 to 104: the header is replaced by its normalized labels, one for one (the
  assignment cannot fail, the number of labels is unchanged). The headers of the model
  are lists of strings, as \<^verbatim>\<open>pd.read_csv\<close> makes them, and on these the three \<^verbatim>\<open>.str\<close>
  calls cannot fail. A header of \<^verbatim>\<open>pd.read_excel\<close> can hold numbers or dates; where it
  holds no string at all, \<^verbatim>\<open>.str\<close> raises \<^verbatim>\<open>AttributeError\<close>, which nothing catches
  either. Such tables are outside the model.
\<close>

definition normalize_columns :: "'v dataframe \<Rightarrow> 'v dataframe" where
  "normalize_columns df = df\<lparr>df_columns := map normalize_label (df_columns df)\<rparr>"

text \<open>Line 106, on a frame whose header is already normalized.\<close>

definition missing_cols :: "'v dataframe \<Rightarrow> string list" where
  "missing_cols df = filter (\<lambda>col. col \<notin> set (df_columns df)) columns_lower"

text \<open>Lines 113 and 114.\<close>

definition reorder :: "'v dataframe \<Rightarrow> py_error + 'v dataframe" where
  "reorder df =
     (case getitem df columns_lower of
        Inl e \<Rightarrow> Inl e
      | Inr d \<Rightarrow> set_columns d columns)"

text \<open>What \<^verbatim>\<open>main\<close> shows through \<^verbatim>\<open>st.warning\<close>, \<^verbatim>\<open>st.success\<close>, \<^verbatim>\<open>st.info\<close> and \<^verbatim>\<open>st.error\<close>.\<close>

datatype message =
    Zip_empty
  | Extracted nat
  | Skipped_unsupported string
  | Read_ok string nat
  | Error_reading string
  | No_valid_files
  | Skipped_missing string "string list"
  | No_complete_columns
  | Merged_files nat nat
  | Error_merging

text \<open>
  A parser is a function from the file's name in the archive to the frame read, or
  \<^const>\<open>None\<close> when it raises an \<^verbatim>\<open>Exception\<close>.
\<close>

type_synonym 'v parser = "string \<Rightarrow> 'v dataframe option"

definition read_file :: "'v parser \<Rightarrow> 'v parser \<Rightarrow> reader \<Rightarrow> string \<Rightarrow> 'v dataframe option" where
  "read_file read_csv read_excel r file =
     (case r of Read_csv \<Rightarrow> read_csv file | Read_excel \<Rightarrow> read_excel file)"

text \<open>
  The loop of lines 53 to 70; its state is \<^verbatim>\<open>all_dfs\<close>, \<^verbatim>\<open>valid_files\<close> and the messages
  shown so far.
\<close>

fun read_loop ::
  "'v parser \<Rightarrow> 'v parser \<Rightarrow> string list \<Rightarrow>
   'v dataframe list \<times> string list \<times> message list \<Rightarrow>
   'v dataframe list \<times> string list \<times> message list" where
  "read_loop read_csv read_excel [] st = st"
| "read_loop read_csv read_excel (file # files) (all_dfs, valid_files, msgs) =
     (case reader_for file of
        None \<Rightarrow>
          read_loop read_csv read_excel files
            (all_dfs, valid_files, msgs @ [Skipped_unsupported file])
      | Some r \<Rightarrow>
          (case read_file read_csv read_excel r file of
             Some df \<Rightarrow>
               read_loop read_csv read_excel files
                 (all_dfs @ [df], valid_files @ [file], msgs @ [Read_ok file (len_df df)])
           | None \<Rightarrow>
               read_loop read_csv read_excel files
                 (all_dfs, valid_files, msgs @ [Error_reading file])))"

text \<open>
  The loop of lines 98 to 115; its state is \<^verbatim>\<open>dfs_reorder\<close> and the messages. Nothing
  catches an exception of lines 113 and 114: the loop, and \<^verbatim>\<open>main\<close>, end there with it.
\<close>

fun reorder_loop ::
  "(string \<times> 'v dataframe) list \<Rightarrow> 'v dataframe list \<times> message list \<Rightarrow>
   message list \<times> (py_error + 'v dataframe list)" where
  "reorder_loop [] (dfs_reorder, msgs) = (msgs, Inr dfs_reorder)"
| "reorder_loop ((file, df) # rest) (dfs_reorder, msgs) =
     (let df1 = normalize_columns df
      in if missing_cols df1 \<noteq> []
         then reorder_loop rest (dfs_reorder, msgs @ [Skipped_missing file (missing_cols df1)])
         else (case reorder df1 of
                 Inl e \<Rightarrow> (msgs, Inl e)
               | Inr df2 \<Rightarrow> reorder_loop rest (dfs_reorder @ [df2], msgs)))"

datatype 'v outcome =
    Uncaught py_error
  | No_output
  | Merged "'v dataframe"

text \<open>
  \<^verbatim>\<open>main\<close> from line 42 on, given the names of the extracted files: the messages shown,
  and how it ends: with an exception nothing catches, without a merged table, or with
  \<^verbatim>\<open>merged_df\<close>. The preview and the download of \<^verbatim>\<open>merged_df\<close> (lines 128 to 143) are
  not modelled.
\<close>

definition main ::
  "'v parser \<Rightarrow> 'v parser \<Rightarrow> string list \<Rightarrow> message list \<times> 'v outcome" where
  "main read_csv read_excel extracted_files =
     (if extracted_files = [] then ([Zip_empty], No_output)
      else
        (case read_loop read_csv read_excel extracted_files
                ([], [], [Extracted (length extracted_files)]) of
           (all_dfs, valid_files, msgs) \<Rightarrow>
             if all_dfs = [] then (msgs @ [No_valid_files], No_output)
             else
               (case reorder_loop (zip valid_files all_dfs) ([], msgs) of
                  (msgs', Inl e) \<Rightarrow> (msgs', Uncaught e)
                | (msgs', Inr dfs_reorder) \<Rightarrow>
                    if dfs_reorder = [] then (msgs' @ [No_complete_columns], No_output)
                    else
                      (case pd_concat dfs_reorder of
                         Inl e \<Rightarrow> (msgs' @ [Error_merging], No_output)
                       | Inr merged_df \<Rightarrow>
                           (msgs' @ [Merged_files (length dfs_reorder) (len_df merged_df)],
                            Merged merged_df)))))"

subsection \<open>What becomes of a file\<close>

text \<open>
  The definitions of this subsection are not steps of the program: they say, file by file,
  what the two loops do with it, and the theorems below state \<^const>\<open>main\<close> in their
  terms. A file is unsupported, or its parser raises, or its table lacks canonical columns,
  or its table passes the check of line 106 and then either lines 113 and 114 raise or the
  table is kept for the merge.
\<close>

datatype file_outcome =
    Unsupported
  | Read_failure
  | Missing_columns "string list"
  | Reorder_raises py_error
  | Merged_file

definition parse_file :: "'v parser \<Rightarrow> 'v parser \<Rightarrow> string \<Rightarrow> 'v dataframe option" where
  "parse_file read_csv read_excel file =
     (case reader_for file of
        None \<Rightarrow> None
      | Some r \<Rightarrow> read_file read_csv read_excel r file)"

definition table_outcome :: "'v dataframe \<Rightarrow> file_outcome" where
  "table_outcome df =
     (let df1 = normalize_columns df
      in if missing_cols df1 \<noteq> [] then Missing_columns (missing_cols df1)
         else (case reorder df1 of Inl e \<Rightarrow> Reorder_raises e | Inr d \<Rightarrow> Merged_file))"

definition outcome_of :: "'v parser \<Rightarrow> 'v parser \<Rightarrow> string \<Rightarrow> file_outcome" where
  "outcome_of read_csv read_excel file =
     (case reader_for file of
        None \<Rightarrow> Unsupported
      | Some r \<Rightarrow>
          (case read_file read_csv read_excel r file of
             None \<Rightarrow> Read_failure
           | Some df \<Rightarrow> table_outcome df))"

definition raises :: "'v dataframe \<Rightarrow> bool" where
  "raises df = (case table_outcome df of Reorder_raises e \<Rightarrow> True | _ \<Rightarrow> False)"

text \<open>The files that were read, with their tables, in the order of the archive.\<close>

definition parsed_files ::
  "'v parser \<Rightarrow> 'v parser \<Rightarrow> string list \<Rightarrow> (string \<times> 'v dataframe) list" where
  "parsed_files read_csv read_excel files =
     List.map_filter (\<lambda>file. map_option (Pair file) (parse_file read_csv read_excel file)) files"

text \<open>The tables, as read, of the files that are kept for the merge, in the order of the archive.\<close>

definition merged_sources :: "'v parser \<Rightarrow> 'v parser \<Rightarrow> string list \<Rightarrow> 'v dataframe list" where
  "merged_sources read_csv read_excel files =
     filter (\<lambda>df. table_outcome df = Merged_file)
       (map snd (parsed_files read_csv read_excel files))"

text \<open>
  The positions of the source columns that line 113 takes from a table, and a row cut down
  to them.
\<close>

definition canonical_indexer :: "'v dataframe \<Rightarrow> nat list" where
  "canonical_indexer df =
     (case get_indexer (map normalize_label (df_columns df)) columns_lower of
        Inl e \<Rightarrow> []
      | Inr idx \<Rightarrow> idx)"

definition project_rows :: "'v dataframe \<Rightarrow> 'v list list" where
  "project_rows df = map (\<lambda>r. map (\<lambda>i. r ! i) (canonical_indexer df)) (df_rows df)"

text \<open>The messages of the two loops, file by file.\<close>

definition read_msg :: "'v parser \<Rightarrow> 'v parser \<Rightarrow> string \<Rightarrow> message" where
  "read_msg read_csv read_excel file =
     (case reader_for file of
        None \<Rightarrow> Skipped_unsupported file
      | Some r \<Rightarrow>
          (case read_file read_csv read_excel r file of
             None \<Rightarrow> Error_reading file
           | Some df \<Rightarrow> Read_ok file (len_df df)))"

definition skip_msgs :: "(string \<times> 'v dataframe) list \<Rightarrow> message list" where
  "skip_msgs ts =
     List.map_filter
       (\<lambda>(file, df).
          if missing_cols (normalize_columns df) \<noteq> []
          then Some (Skipped_missing file (missing_cols (normalize_columns df)))
          else None)
       ts"

text \<open>
  The table that lines 113 and 114 make of a table when they do not raise, and the
  table that line 123 makes of the tables kept.
\<close>

definition reordered :: "'v dataframe \<Rightarrow> 'v dataframe" where
  "reordered df = \<lparr>df_columns = columns, df_rows = project_rows df\<rparr>"

definition stacked :: "'v dataframe list \<Rightarrow> 'v dataframe" where
  "stacked srcs = \<lparr>df_columns = columns, df_rows = concat (map project_rows srcs)\<rparr>"

text \<open>Whether lines 113 and 114 raise on a table read from the archive.\<close>

definition some_raises :: "'v parser \<Rightarrow> 'v parser \<Rightarrow> string list \<Rightarrow> bool" where
  "some_raises rc rx files = list_ex raises (map snd (parsed_files rc rx files))"

subsection \<open>Example tables and parsers\<close>

text \<open>
  Concrete inputs for the evaluations below: a table with every canonical column, in
  reverse order, in other spellings and with one more column; a table without the column
  \<^verbatim>\<open>GIC\<close>; a table with every canonical column and a second column that normalizes to
  \<^verbatim>\<open>date\<close>; and two parsers that know these tables by file name and raise on every
  other file.
\<close>

definition good_table :: "nat dataframe" where
  "good_table =
     \<lparr>df_columns =
        [''Extra'', ''date'', ''GIC '', ''yes/no'', ''ALLOCATION'', ''Category'', ''url'',
         ''Brand'', ''Module'', ''Retailer SKU-Current'', ''price  -  current'',
         ''Predicted Barcode -Current'', ''Current Nielsen Item ID'',
         ''Best External Description- Current'', ''Processing Group Description'',
         ''processing group code'', ''external code''],
      df_rows =
        [[100, 116, 115, 114, 113, 112, 111, 110, 109, 108, 107, 106, 105, 104, 103, 102, 101],
         [200, 216, 215, 214, 213, 212, 211, 210, 209, 208, 207, 206, 205, 204, 203, 202, 201],
         [300, 316, 315, 314, 313, 312, 311, 310, 309, 308, 307, 306, 305, 304, 303, 302, 301]]\<rparr>"

definition nogic_table :: "nat dataframe" where
  "nogic_table =
     \<lparr>df_columns =
        [''External Code'', ''Processing Group Code'', ''Processing Group Description'',
         ''Best External Description - Current'', ''Current Nielsen Item ID'',
         ''Predicted Barcode - Current'', ''Price - Current'', ''Retailer SKU - Current'',
         ''Module'', ''Brand'', ''URL'', ''Category'', ''Allocation'', ''Yes/No'', ''Date''],
      df_rows =
        [[1, 2, 3, 4, 5, 6, 7, 8, 9, 10, 11, 12, 13, 14, 16],
         [21, 22, 23, 24, 25, 26, 27, 28, 29, 30, 31, 32, 33, 34, 36]]\<rparr>"

definition dup_table :: "nat dataframe" where
  "dup_table =
     \<lparr>df_columns = columns @ [''DATE''],
      df_rows = [[1, 2, 3, 4, 5, 6, 7, 8, 9, 10, 11, 12, 13, 14, 15, 16, 17]]\<rparr>"

definition example_csv :: "nat parser" where
  "example_csv file =
     (if file = ''good.csv'' then Some good_table
      else if file = ''sub/NOGIC.CSV'' then Some nogic_table
      else if file = ''dup.csv'' then Some dup_table
      else None)"

definition example_excel :: "nat parser" where
  "example_excel file = (if file = ''Good.XLSX'' then Some good_table else None)"

section \<open>Normalization of labels\<close>

subsection \<open>Characters, strip and the hyphen substitution\<close>

lemma isspace_lower_char [simp]: "isspace (lower_char c) = isspace c"
  by (auto simp add: isspace_def lower_char_def Let_def)

lemma lower_char_hyphen [simp]: "lower_char c = CHR ''-'' \<longleftrightarrow> c = CHR ''-''"
proof -
  have "(of_char (lower_char c) :: nat) = 45 \<longleftrightarrow> (of_char c :: nat) = 45"
    by (auto simp add: lower_char_def Let_def)
  moreover have "(of_char CHR ''-'' :: nat) = 45" by simp
  ultimately show ?thesis
    by (metis of_char_eq_iff)
qed

lemma lower_char_idem [simp]: "lower_char (lower_char c) = lower_char c"
  by (auto simp add: lower_char_def Let_def)

text \<open>
  Code equations that work on the bits of a character instead of its code point; the
  evaluations below run on them.
\<close>

lemma isspace_code [code]:
  "isspace c \<longleftrightarrow>
     c = CHR 0x20 \<or> c = CHR 0x09 \<or> c = CHR 0x0A \<or> c = CHR 0x0B \<or> c = CHR 0x0C \<or>
     c = CHR 0x0D \<or> c = CHR 0x1C \<or> c = CHR 0x1D \<or> c = CHR 0x1E \<or> c = CHR 0x1F \<or>
     c = CHR 0x85 \<or> c = CHR 0xA0"
proof -
  have *: "(c = d) = ((of_char c :: nat) = of_char d)" for d
    by simp
  show ?thesis
    unfolding isspace_def * by auto
qed

lemma lower_char_code [code]:
  "lower_char (Char b0 b1 b2 b3 b4 b5 b6 b7) =
     (if b6 \<and> \<not> b5 \<and>
         (if b7 then \<not> (b0 \<and> b1 \<and> b2 \<and> b4)
          else (b0 \<or> b1 \<or> b2 \<or> b3 \<or> b4) \<and> \<not> (b4 \<and> b3 \<and> (b2 \<or> (b1 \<and> b0))))
      then Char b0 b1 b2 b3 b4 True b6 b7
      else Char b0 b1 b2 b3 b4 b5 b6 b7)"
  by (cases b0; cases b1; cases b2; cases b3; cases b4; cases b5; cases b6; cases b7;
      simp add: lower_char_def char_of_eq_iff)

lemma not_isspace_hyphen [simp]: "\<not> isspace CHR ''-''"
  by (simp add: isspace_def)

lemma isspace_space [simp]: "isspace CHR '' ''"
  by (simp add: isspace_def)

lemma str_rstrip_Nil [simp]: "str_rstrip [] = []"
  by (simp add: str_rstrip_def)

lemma str_rstrip_eq_Nil: "str_rstrip s = [] \<longleftrightarrow> (\<forall>x\<in>set s. isspace x)"
  by (simp add: str_rstrip_def)

lemma str_rstrip_all_ws: "\<forall>x\<in>set s. isspace x \<Longrightarrow> str_rstrip s = []"
  by (simp add: str_rstrip_eq_Nil)

lemma str_rstrip_Cons:
  "str_rstrip (c # cs) =
     (if isspace c \<and> (\<forall>x\<in>set cs. isspace x) then [] else c # str_rstrip cs)"
  by (auto simp add: str_rstrip_def dropWhile_append)

lemma str_rstrip_lstrip: "str_rstrip (str_lstrip s) = str_lstrip (str_rstrip s)"
  by (induction s) (auto simp add: str_rstrip_Cons str_lstrip_def str_rstrip_all_ws)

lemma sub_hyphen_lead:
  "dropWhile isspace s = CHR ''-'' # r \<Longrightarrow>
   re_sub_hyphen s = '' - '' @ re_sub_hyphen (dropWhile isspace r)"
  by (cases s) auto

lemma sub_hyphen_keep:
  "dropWhile isspace (c # cs) = [] \<or> hd (dropWhile isspace (c # cs)) \<noteq> CHR ''-'' \<Longrightarrow>
   re_sub_hyphen (c # cs) = c # re_sub_hyphen cs"
  by (auto split: list.splits)


lemma sub_hyphen_all_ws: "\<forall>x\<in>set s. isspace x \<Longrightarrow> re_sub_hyphen s = s"
proof (induction s)
  case Nil
  show ?case by simp
next
  case (Cons c cs)
  then have "dropWhile isspace (c # cs) = []" by simp
  then have "re_sub_hyphen (c # cs) = c # re_sub_hyphen cs"
    using sub_hyphen_keep by blast
  with Cons show ?case by simp
qed

lemma dropWhile_all_ws_append:
  "\<forall>x\<in>set w. isspace x \<Longrightarrow> dropWhile isspace (w @ s) = dropWhile isspace s"
  by (induction w) auto

lemma sub_hyphen_split:
  "re_sub_hyphen (a @ CHR ''-'' # b) =
   re_sub_hyphen (str_rstrip a) @ '' - '' @ re_sub_hyphen (str_lstrip b)"
proof (induction "length a" arbitrary: a rule: less_induct)
  case less
  let ?X = "CHR ''-'' # b"
  show ?case
  proof (cases "\<forall>x\<in>set a. isspace x")
    case True
    then have "dropWhile isspace (a @ ?X) = ?X"
      by (simp add: dropWhile_all_ws_append)
    then have "re_sub_hyphen (a @ ?X) = '' - '' @ re_sub_hyphen (dropWhile isspace b)"
      by (rule sub_hyphen_lead)
    with True show ?thesis
      by (simp add: str_rstrip_all_ws str_lstrip_def)
  next
    case False
    then obtain c cs where a: "a = c # cs" by (cases a) auto
    from False obtain d r where dr: "dropWhile isspace a = d # r"
      by (cases "dropWhile isspace a") (auto simp add: dropWhile_eq_Nil_conv)
    then have nd: "\<not> isspace d" by (metis hd_dropWhile list.sel(1) list.distinct(1))
    have dX: "dropWhile isspace (a @ ?X) = d # r @ ?X"
      using False dr by (simp add: dropWhile_append)
    have lr: "dropWhile isspace (str_rstrip a) = d # str_rstrip r"
    proof -
      have "dropWhile isspace (str_rstrip a) = str_rstrip (dropWhile isspace a)"
        using str_rstrip_lstrip [of a] by (simp add: str_lstrip_def)
      with dr nd show ?thesis by (simp add: str_rstrip_Cons)
    qed
    show ?thesis
    proof (cases "d = CHR ''-''")
      case True
      have 1: "re_sub_hyphen (a @ ?X) = '' - '' @ re_sub_hyphen (dropWhile isspace (r @ ?X))"
        using dX True by (simp add: sub_hyphen_lead)
      have 2: "re_sub_hyphen (str_rstrip a) =
               '' - '' @ re_sub_hyphen (dropWhile isspace (str_rstrip r))"
        using lr True by (simp add: sub_hyphen_lead)
      have 3: "re_sub_hyphen (dropWhile isspace (r @ ?X)) =
               re_sub_hyphen (dropWhile isspace (str_rstrip r)) @ '' - '' @
               re_sub_hyphen (str_lstrip b)"
      proof (cases "\<forall>x\<in>set r. isspace x")
        case True
        then have "dropWhile isspace (r @ ?X) = ?X"
          by (simp add: dropWhile_all_ws_append)
        moreover have "re_sub_hyphen ?X = '' - '' @ re_sub_hyphen (dropWhile isspace b)"
          by (rule sub_hyphen_lead) simp
        ultimately show ?thesis
          using True by (simp add: str_rstrip_all_ws str_lstrip_def)
      next
        case False
        then have "dropWhile isspace (r @ ?X) = dropWhile isspace r @ ?X"
          by (simp add: dropWhile_append)
        moreover have "length (dropWhile isspace r) < length a"
        proof -
          have "length (dropWhile isspace r) \<le> length r" by (rule length_dropWhile_le)
          moreover have "length (d # r) \<le> length a"
            using dr length_dropWhile_le [of isspace a] by simp
          ultimately show ?thesis by simp
        qed
        moreover have "str_rstrip (dropWhile isspace r) = dropWhile isspace (str_rstrip r)"
          using str_rstrip_lstrip [of r] by (simp add: str_lstrip_def)
        ultimately show ?thesis
          using less.hyps [of "dropWhile isspace r"] by simp
      qed
      from 1 2 3 show ?thesis by simp
    next
      case False
      have "re_sub_hyphen (c # (cs @ ?X)) = c # re_sub_hyphen (cs @ ?X)"
        by (rule sub_hyphen_keep) (use dX a False in simp)
      moreover have ra: "str_rstrip a = c # str_rstrip cs"
        using \<open>\<not> (\<forall>x\<in>set a. isspace x)\<close> a by (auto simp add: str_rstrip_Cons)
      moreover have "re_sub_hyphen (c # str_rstrip cs) = c # re_sub_hyphen (str_rstrip cs)"
        by (rule sub_hyphen_keep) (use lr ra False in simp)
      moreover have "re_sub_hyphen (cs @ ?X) =
          re_sub_hyphen (str_rstrip cs) @ '' - '' @ re_sub_hyphen (str_lstrip b)"
        using less.hyps [of cs] a by simp
      ultimately show ?thesis using a by simp
    qed
  qed
qed



lemma sub_hyphen_no_hyphen: "CHR ''-'' \<notin> set s \<Longrightarrow> re_sub_hyphen s = s"
proof (induction s)
  case Nil
  show ?case by simp
next
  case (Cons c cs)
  have "set (dropWhile isspace (c # cs)) \<subseteq> set (c # cs)"
    by (rule set_dropWhileD [THEN subsetI])
  with Cons.prems have "CHR ''-'' \<notin> set (dropWhile isspace (c # cs))" by blast
  then have "dropWhile isspace (c # cs) = [] \<or> hd (dropWhile isspace (c # cs)) \<noteq> CHR ''-''"
    by (cases "dropWhile isspace (c # cs)") auto
  then have "re_sub_hyphen (c # cs) = c # re_sub_hyphen cs"
    by (rule sub_hyphen_keep)
  with Cons show ?case by simp
qed

lemma dropWhile_isspace_lower:
  "dropWhile isspace (map lower_char s) = map lower_char (dropWhile isspace s)"
  by (induction s) auto

lemma str_lstrip_lower: "str_lstrip (str_lower s) = str_lower (str_lstrip s)"
  by (simp add: str_lstrip_def str_lower_def dropWhile_isspace_lower)

lemma str_rstrip_lower: "str_rstrip (str_lower s) = str_lower (str_rstrip s)"
  by (simp add: str_rstrip_def str_lower_def dropWhile_isspace_lower rev_map)

lemma str_strip_lower: "str_strip (str_lower s) = str_lower (str_strip s)"
  by (simp add: str_strip_def str_lstrip_lower str_rstrip_lower)

lemma str_lower_idem: "str_lower (str_lower s) = str_lower s"
  by (simp add: str_lower_def)

lemma str_lower_append: "str_lower (s @ t) = str_lower s @ str_lower t"
  by (simp add: str_lower_def)

lemma sub_hyphen_lower: "re_sub_hyphen (str_lower s) = str_lower (re_sub_hyphen s)"
proof (induction s rule: re_sub_hyphen.induct)
  case 1
  show ?case by (simp add: str_lower_def)
next
  case (2 c cs)
  show ?case
  proof (cases "dropWhile isspace (c # cs)")
    case Nil
    then have "dropWhile isspace (map lower_char (c # cs)) = []"
      by (simp only: dropWhile_isspace_lower) simp
    then have "re_sub_hyphen (lower_char c # map lower_char cs) =
               lower_char c # re_sub_hyphen (map lower_char cs)"
      using sub_hyphen_keep [of "lower_char c" "map lower_char cs"] by simp
    moreover have "re_sub_hyphen (c # cs) = c # re_sub_hyphen cs"
      using Nil sub_hyphen_keep [of c cs] by simp
    ultimately show ?thesis
      using 2(1) [OF Nil] by (simp add: str_lower_def)
  next
    case (Cons d rest)
    then have L: "dropWhile isspace (map lower_char (c # cs)) = lower_char d # map lower_char rest"
      by (simp only: dropWhile_isspace_lower) simp
    show ?thesis
    proof (cases "d = CHR ''-''")
      case True
      have "re_sub_hyphen (c # cs) = '' - '' @ re_sub_hyphen (dropWhile isspace rest)"
        using Cons True by (simp add: sub_hyphen_lead)
      moreover have "re_sub_hyphen (map lower_char (c # cs)) =
          '' - '' @ re_sub_hyphen (dropWhile isspace (map lower_char rest))"
        using L True by (simp add: sub_hyphen_lead del: list.map)
      ultimately show ?thesis
        using 2(2) [OF Cons True]
        by (simp add: str_lower_def dropWhile_isspace_lower lower_char_def)
    next
      case False
      have "re_sub_hyphen (c # cs) = c # re_sub_hyphen cs"
        using Cons False sub_hyphen_keep [of c cs] by simp
      moreover have "re_sub_hyphen (lower_char c # map lower_char cs) =
               lower_char c # re_sub_hyphen (map lower_char cs)"
        using L False sub_hyphen_keep [of "lower_char c" "map lower_char cs"] by simp
      ultimately show ?thesis
        using 2(3) [OF Cons False] by (simp add: str_lower_def)
    qed
  qed
qed

lemma str_rstrip_append_nonws:
  "\<not> isspace d \<Longrightarrow> str_rstrip (p @ d # r) = p @ d # str_rstrip r"
  by (induction p) (auto simp add: str_rstrip_Cons)

lemma str_lstrip_append_nonws:
  "\<not> isspace d \<Longrightarrow> str_lstrip (p @ d # r) = str_lstrip p @ d # r"
  by (induction p) (auto simp add: str_lstrip_def)

lemma str_strip_alt: "str_strip s = str_lstrip (str_rstrip s)"
  by (simp add: str_strip_def str_rstrip_lstrip)

lemma normalize_label_split:
  "normalize_label (a @ CHR ''-'' # b) = normalize_label a @ '' - '' @ normalize_label b"
proof -
  have "str_strip (a @ CHR ''-'' # b) = str_lstrip a @ CHR ''-'' # str_rstrip b"
    by (simp add: str_strip_def str_lstrip_append_nonws str_rstrip_append_nonws)
  then have "re_sub_hyphen (str_strip (a @ CHR ''-'' # b)) =
     re_sub_hyphen (str_strip a) @ '' - '' @ re_sub_hyphen (str_strip b)"
    by (simp add: sub_hyphen_split str_strip_alt [of b]) (simp add: str_strip_def)
  then show ?thesis
    by (simp add: normalize_label_def str_lower_append) (simp add: str_lower_def lower_char_def)
qed

lemma str_strip_ws_Cons: "isspace w \<Longrightarrow> str_strip (w # s) = str_strip s"
  by (simp add: str_strip_def str_lstrip_def)

lemma str_strip_ws_snoc: "isspace w \<Longrightarrow> str_strip (s @ [w]) = str_strip s"
  by (simp add: str_strip_alt) (simp add: str_rstrip_def)

lemma str_strip_idem: "str_strip (str_strip s) = str_strip s"
proof -
  have "str_lstrip (str_lstrip s) = str_lstrip s" for s
    by (simp add: str_lstrip_def)
  moreover have "str_rstrip (str_rstrip s) = str_rstrip s" for s
    by (simp add: str_rstrip_def)
  ultimately show ?thesis
    by (metis str_strip_def str_rstrip_lstrip)
qed

lemma set_str_strip: "set (str_strip s) \<subseteq> set s"
proof -
  have "set (dropWhile isspace t) \<subseteq> set t" for t
    by (rule set_dropWhileD [THEN subsetI])
  then show ?thesis
    unfolding str_strip_def str_rstrip_def str_lstrip_def
    by (metis set_rev subset_trans)
qed

lemma normalize_label_no_hyphen:
  "CHR ''-'' \<notin> set x \<Longrightarrow> normalize_label x = str_lower (str_strip x)"
proof -
  assume "CHR ''-'' \<notin> set x"
  with set_str_strip [of x] have "CHR ''-'' \<notin> set (str_strip x)" by blast
  then show ?thesis by (simp add: normalize_label_def sub_hyphen_no_hyphen)
qed

lemma hyphen_in_str_lower: "CHR ''-'' \<in> set (str_lower s) \<longleftrightarrow> CHR ''-'' \<in> set s"
proof -
  have "CHR ''-'' \<in> lower_char ` set s \<longleftrightarrow> CHR ''-'' \<in> set s"
    by (metis (no_types) image_iff lower_char_hyphen)
  then show ?thesis by (simp add: str_lower_def)
qed

lemma split_on_not_Nil [simp]: "split_on sep s \<noteq> []"
  by (induction s) (auto split: list.splits)

lemma split_on_no_sep: "sep \<notin> set s \<Longrightarrow> split_on sep s = [s]"
  by (induction s) auto

lemma split_on_first: "sep \<notin> set a \<Longrightarrow> split_on sep (a @ sep # b) = a # split_on sep b"
  by (induction a) auto

lemma split_on_lstrip:
  "split_on CHR ''-'' b = q # ps \<Longrightarrow>
   split_on CHR ''-'' (str_lstrip b) = str_lstrip q # ps"
proof (induction b arbitrary: q)
  case Nil
  then show ?case by (simp add: str_lstrip_def)
next
  case (Cons c cs)
  then show ?case
    by (cases "split_on CHR ''-'' cs") (auto simp add: str_lstrip_def split: if_splits)
qed

lemma sub_hyphen_eq_spec: "re_sub_hyphen s = spec_hyphen_spacing s"
proof (induction "length s" arbitrary: s rule: less_induct)
  case less
  show ?case
  proof (cases "CHR ''-'' \<in> set s")
    case False
    then show ?thesis
      by (simp add: spec_hyphen_spacing_def split_on_no_sep sub_hyphen_no_hyphen)
  next
    case True
    then obtain a b where s: "s = a @ CHR ''-'' # b" and a: "CHR ''-'' \<notin> set a"
      by (auto dest: split_list_first)
    obtain q ps where b: "split_on CHR ''-'' b = q # ps"
      by (cases "split_on CHR ''-'' b") auto
    have "CHR ''-'' \<notin> set (str_rstrip a)"
      using a set_dropWhileD [of _ isspace "rev a"] by (auto simp add: str_rstrip_def)
    then have 1: "re_sub_hyphen (str_rstrip a) = str_rstrip a"
      by (rule sub_hyphen_no_hyphen)
    have "length (str_lstrip b) < length s"
      using s length_dropWhile_le [of isspace b] by (simp add: str_lstrip_def)
    then have 2: "re_sub_hyphen (str_lstrip b) = join_pieces (str_lstrip q # ps)"
      using less [of "str_lstrip b"] split_on_lstrip [OF b]
      by (simp add: spec_hyphen_spacing_def)
    show ?thesis
      using 1 2 a b by (simp add: s sub_hyphen_split spec_hyphen_spacing_def split_on_first)
  qed
qed

subsection \<open>Claims about normalization\<close>

text \<open>
  C5: the labels \<^verbatim>\<open>"A-B"\<close>, \<^verbatim>\<open>"A -B"\<close>, \<^verbatim>\<open>"A- B"\<close> and \<^verbatim>\<open>"A   -   B"\<close> all normalize
  to \<^verbatim>\<open>"a - b"\<close>, which normalizes to itself: the whitespace around a hyphen, none
  included, and the case make no difference.
\<close>

theorem normalize_label_hyphen_examples:
  "normalize_label ''A-B'' = ''a - b'' \<and>
   normalize_label ''A -B'' = ''a - b'' \<and>
   normalize_label ''A- B'' = ''a - b'' \<and>
   normalize_label ''A   -   B'' = ''a - b'' \<and>
   normalize_label ''a - b'' = ''a - b''"
  by code_simp

text \<open>
  C3: normalization is idempotent: normalizing a normalized label gives the same label,
  for every string. The proof cuts the label at a hyphen (\<open>normalize_label_split\<close>) and
  goes by induction on its length.
\<close>

theorem normalize_label_idempotent: "normalize_label (normalize_label x) = normalize_label x"
proof (induction "length x" arbitrary: x rule: less_induct)
  case less
  show ?case
  proof (cases "CHR ''-'' \<in> set x")
    case False
    then have n: "normalize_label x = str_lower (str_strip x)"
      by (rule normalize_label_no_hyphen)
    have "CHR ''-'' \<notin> set (str_lower (str_strip x))"
      using False set_str_strip [of x] by (auto simp add: hyphen_in_str_lower)
    then have "normalize_label (str_lower (str_strip x)) = str_lower (str_strip (str_lower (str_strip x)))"
      by (rule normalize_label_no_hyphen)
    with n show ?thesis
      by (simp add: str_strip_lower str_strip_idem str_lower_idem)
  next
    case True
    then obtain a b where x: "x = a @ CHR ''-'' # b"
      by (auto dest: split_list)
    have "normalize_label (normalize_label a @ '' - '' @ normalize_label b) =
          normalize_label ((normalize_label a @ '' '') @ CHR ''-'' # ('' '' @ normalize_label b))"
      by simp
    also have "\<dots> = normalize_label (normalize_label a @ '' '') @ '' - '' @ normalize_label ('' '' @ normalize_label b)"
      by (rule normalize_label_split)
    also have "normalize_label (normalize_label a @ '' '') = normalize_label (normalize_label a)"
      by (simp add: normalize_label_def str_strip_ws_snoc)
    also have "normalize_label ('' '' @ normalize_label b) = normalize_label (normalize_label b)"
      by (simp add: normalize_label_def str_strip_ws_Cons)
    finally show ?thesis
      using less [of a] less [of b] x by (simp add: normalize_label_split)
  qed
qed

text \<open>
  C4: normalization is strip, then the hyphen rule of the specification
  (\<^const>\<open>spec_hyphen_spacing\<close>: every run of whitespace next to a hyphen goes, and the
  hyphen gets one space before and one after), then lowercase. A label without a hyphen is
  only stripped and lowercased. Each hyphen is treated on its own: cut at any of its
  hyphens, a label normalizes to the normalized left part, \<^verbatim>\<open>" - "\<close> and the normalized
  right part.
\<close>

theorem normalize_label_composition:
  "normalize_label x = str_lower (spec_hyphen_spacing (str_strip x)) \<and>
   (CHR ''-'' \<notin> set x \<longrightarrow> normalize_label x = str_lower (str_strip x)) \<and>
   normalize_label (a @ CHR ''-'' # b) = normalize_label a @ '' - '' @ normalize_label b"
  using sub_hyphen_eq_spec [of "str_strip x"] normalize_label_no_hyphen [of x]
    normalize_label_split [of a b]
  by (simp add: normalize_label_def)

theorem normalize_label_composition_witness:
  "CHR ''-'' \<notin> set ''  Yes/No '' \<and>
   normalize_label ''  Yes/No '' = ''yes/no'' \<and>
   normalize_label (''Price '' @ CHR ''-'' # ''Current'') = ''price - current''"
proof -
  have h: "CHR ''-'' \<notin> set ''  Yes/No ''" by simp
  have 1: "str_lower (str_strip ''  Yes/No '') = ''yes/no''" by code_simp
  have 2: "normalize_label ''Price '' = ''price''" by code_simp
  have 3: "normalize_label ''Current'' = ''current''" by code_simp
  have 4: "normalize_label ''  Yes/No '' = str_lower (str_strip ''  Yes/No '')"
    using normalize_label_composition [of "''  Yes/No ''"] h by blast
  have 5: "normalize_label (''Price '' @ CHR ''-'' # ''Current'') =
           normalize_label ''Price '' @ '' - '' @ normalize_label ''Current''"
    using normalize_label_composition [of "[]" "''Price ''" "''Current''"] by blast
  from h 1 2 3 4 5 show ?thesis by simp
qed

section \<open>The two loops and \<open>main\<close>\<close>

subsection \<open>Validation and reordering of one table\<close>

lemma distinct_columns: "distinct columns"
  by (simp add: columns_def)

lemma length_columns: "length columns = 16"
  by (simp add: columns_def)

lemma columns_lower_normalized: "map normalize_label columns = columns_lower"
  by code_simp

lemma missing_cols_Nil_iff:
  "missing_cols df = [] \<longleftrightarrow> set columns_lower \<subseteq> set (df_columns df)"
  by (auto simp add: missing_cols_def filter_empty_conv)

lemma reorder_cases:
  "reorder (normalize_columns df) = Inl KeyError \<or>
   reorder (normalize_columns df) = Inl ValueError \<or>
   reorder (normalize_columns df) = Inr (reordered df)"
  by (simp add: reorder_def getitem_def get_indexer_def set_columns_def take_columns_def
      project_rows_def canonical_indexer_def normalize_columns_def reordered_def)

lemma reorder_validated:
  assumes "missing_cols (normalize_columns df) = []"
  shows "reorder (normalize_columns df) = Inl ValueError \<or>
         reorder (normalize_columns df) = Inr (reordered df)"
proof -
  have "getitem (normalize_columns df) columns_lower \<noteq> Inl KeyError"
    using assms by (simp add: getitem_def get_indexer_def missing_cols_Nil_iff)
  then have "reorder (normalize_columns df) \<noteq> Inl KeyError"
    by (auto simp add: reorder_def set_columns_def split: sum.splits)
  with reorder_cases [of df] show ?thesis by blast
qed

lemma table_outcome_cases:
  "table_outcome df = Missing_columns (missing_cols (normalize_columns df)) \<and>
     missing_cols (normalize_columns df) \<noteq> [] \<or>
   table_outcome df = Reorder_raises ValueError \<and>
     missing_cols (normalize_columns df) = [] \<and>
     reorder (normalize_columns df) = Inl ValueError \<or>
   table_outcome df = Merged_file \<and>
     missing_cols (normalize_columns df) = [] \<and>
     reorder (normalize_columns df) = Inr (reordered df)"
proof (cases "missing_cols (normalize_columns df) = []")
  case False
  then show ?thesis by (simp add: table_outcome_def)
next
  case True
  with reorder_validated [OF True] show ?thesis
    by (auto simp add: table_outcome_def)
qed

lemma raises_iff: "raises df \<longleftrightarrow> table_outcome df = Reorder_raises ValueError"
  using table_outcome_cases [of df] by (auto simp add: raises_def)

lemma parsed_files_Nil [simp]: "parsed_files rc rx [] = []"
  by (simp add: parsed_files_def map_filter_simps)

lemma parsed_files_Cons:
  "parsed_files rc rx (f # fs) =
     (case parse_file rc rx f of
        None \<Rightarrow> parsed_files rc rx fs
      | Some df \<Rightarrow> (f, df) # parsed_files rc rx fs)"
  by (simp add: parsed_files_def map_filter_simps split: option.splits)

lemma parsed_files_append:
  "parsed_files rc rx (fs @ gs) = parsed_files rc rx fs @ parsed_files rc rx gs"
  by (simp add: parsed_files_def map_filter_def)

lemma read_loop_eq:
  "read_loop rc rx files (dfs, vs, ms) =
     (dfs @ map snd (parsed_files rc rx files),
      vs @ map fst (parsed_files rc rx files),
      ms @ map (read_msg rc rx) files)"
proof (induction files arbitrary: dfs vs ms)
  case Nil
  show ?case by simp
next
  case (Cons f fs)
  show ?case
    by (simp add: Cons parsed_files_Cons parse_file_def read_msg_def split: option.splits)
qed

lemma skip_msgs_Nil [simp]: "skip_msgs [] = []"
  by (simp add: skip_msgs_def map_filter_simps)

lemma skip_msgs_Cons:
  "skip_msgs ((f, df) # ts) =
     (if missing_cols (normalize_columns df) \<noteq> []
      then Skipped_missing f (missing_cols (normalize_columns df)) # skip_msgs ts
      else skip_msgs ts)"
  by (simp add: skip_msgs_def map_filter_simps)

lemma skip_msgs_append: "skip_msgs (ts @ us) = skip_msgs ts @ skip_msgs us"
  by (simp add: skip_msgs_def map_filter_def)

lemma reorder_loop_eq:
  "reorder_loop ts (acc, ms) =
     (ms @ skip_msgs (takeWhile (\<lambda>t. \<not> raises (snd t)) ts),
      if list_ex (\<lambda>t. raises (snd t)) ts then Inl ValueError
      else Inr (acc @ map reordered (filter (\<lambda>df. table_outcome df = Merged_file) (map snd ts))))"
proof (induction ts arbitrary: acc ms)
  case Nil
  show ?case by simp
next
  case (Cons t ts)
  obtain f df where t: "t = (f, df)" by (cases t)
  from table_outcome_cases [of df] show ?case
    by (auto simp add: t Cons raises_iff skip_msgs_Cons Let_def)
qed

lemma pd_concat_canonical:
  assumes "dfs \<noteq> []" and "list_all (\<lambda>d. df_columns d = columns) dfs"
  shows "pd_concat dfs = Inr \<lparr>df_columns = columns, df_rows = concat (map df_rows dfs)\<rparr>"
proof -
  obtain d ds where dfs: "dfs = d # ds"
    using assms(1) by (cases dfs) auto
  with assms(2) have "df_columns d = columns" and "list_all (\<lambda>d'. df_columns d' = columns) ds"
    by simp_all
  then show ?thesis
    by (simp add: pd_concat_def dfs distinct_columns)
qed

subsection \<open>The whole of \<open>main\<close>\<close>

lemma length_project_rows [simp]: "length (project_rows df) = len_df df"
  by (simp add: project_rows_def len_df_def)

lemma len_df_stacked: "len_df (stacked srcs) = sum_list (map len_df srcs)"
proof -
  have "length (concat (map project_rows srcs)) = sum_list (map len_df srcs)"
    by (simp add: length_concat comp_def)
  then show ?thesis by (simp add: stacked_def len_df_def)
qed

lemma takeWhile_no_raise:
  "\<not> list_ex (\<lambda>t. raises (snd t)) ps \<Longrightarrow> takeWhile (\<lambda>t. \<not> raises (snd t)) ps = ps"
  by (simp add: list_ex_iff takeWhile_eq_all_conv)

lemma concat_reordered:
  "concat (map df_rows (map reordered srcs)) = concat (map project_rows srcs)"
  by (simp add: reordered_def comp_def)

lemma main_eq:
  "main rc rx files =
     (if files = [] then ([Zip_empty], No_output)
      else
        let ps = parsed_files rc rx files;
            msgs = Extracted (length files) # map (read_msg rc rx) files;
            srcs = merged_sources rc rx files
        in if ps = [] then (msgs @ [No_valid_files], No_output)
           else if some_raises rc rx files
           then (msgs @ skip_msgs (takeWhile (\<lambda>t. \<not> raises (snd t)) ps), Uncaught ValueError)
           else if srcs = [] then (msgs @ skip_msgs ps @ [No_complete_columns], No_output)
           else (msgs @ skip_msgs ps @ [Merged_files (length srcs) (sum_list (map len_df srcs))],
                 Merged (stacked srcs)))"
proof (cases "files = []")
  case True
  then show ?thesis by (simp add: main_def)
next
  case False
  let ?ps = "parsed_files rc rx files"
  let ?srcs = "merged_sources rc rx files"
  have ex: "list_ex (\<lambda>t. raises (snd t)) ?ps = some_raises rc rx files"
    by (simp add: some_raises_def list_ex_iff)
  have srcs: "filter (\<lambda>df. table_outcome df = Merged_file) (map snd ?ps) = ?srcs"
    by (simp add: merged_sources_def)
  have cat: "?srcs \<noteq> [] \<Longrightarrow> pd_concat (map reordered ?srcs) = Inr (stacked ?srcs)"
    using pd_concat_canonical [of "map reordered ?srcs"]
    by (simp add: list_all_iff reordered_def stacked_def comp_def)
  show ?thesis
    using False cat
    by (simp add: main_def read_loop_eq zip_map_fst_snd reorder_loop_eq ex srcs Let_def
        takeWhile_no_raise len_df_stacked)
qed

lemma table_outcome_neq [simp]:
  "table_outcome df \<noteq> Read_failure" "table_outcome df \<noteq> Unsupported"
  using table_outcome_cases [of df] by auto

lemma outcome_read_failure:
  assumes "outcome_of rc rx f = Read_failure"
  shows "parse_file rc rx f = None" and "read_msg rc rx f = Error_reading f"
  using assms
  by (auto simp add: outcome_of_def parse_file_def read_msg_def split: option.splits)

lemma outcome_missing:
  assumes "outcome_of rc rx f = Missing_columns cols"
  obtains df where "parse_file rc rx f = Some df"
    and "missing_cols (normalize_columns df) = cols" and "cols \<noteq> []"
    and "table_outcome df = Missing_columns cols"
proof -
  from assms obtain df where p: "parse_file rc rx f = Some df"
    and t: "table_outcome df = Missing_columns cols"
    by (auto simp add: outcome_of_def parse_file_def split: option.splits)
  from t table_outcome_cases [of df]
  have "missing_cols (normalize_columns df) = cols" and "cols \<noteq> []" by auto
  with p t that show thesis by blast
qed

lemma merged_sources_append:
  "merged_sources rc rx (fs @ gs) = merged_sources rc rx fs @ merged_sources rc rx gs"
  by (simp add: merged_sources_def parsed_files_append)

lemma some_raises_append:
  "some_raises rc rx (fs @ gs) \<longleftrightarrow> some_raises rc rx fs \<or> some_raises rc rx gs"
  by (auto simp add: some_raises_def parsed_files_append list_ex_iff)

lemma merged_sources_single:
  "merged_sources rc rx [f] =
     (case parse_file rc rx f of
        None \<Rightarrow> []
      | Some df \<Rightarrow> if table_outcome df = Merged_file then [df] else [])"
  by (simp add: merged_sources_def parsed_files_Cons split: option.splits)

lemma some_raises_single:
  "some_raises rc rx [f] =
     (case parse_file rc rx f of None \<Rightarrow> False | Some df \<Rightarrow> raises df)"
  by (simp add: some_raises_def parsed_files_Cons split: option.splits)

lemma main_outcome:
  "snd (main rc rx files) =
     (if some_raises rc rx files then Uncaught ValueError
      else if merged_sources rc rx files = [] then No_output
      else Merged (stacked (merged_sources rc rx files)))"
proof -
  have "parsed_files rc rx files = [] \<Longrightarrow>
        \<not> some_raises rc rx files \<and> merged_sources rc rx files = []"
    by (simp add: some_raises_def merged_sources_def)
  moreover have "files = [] \<Longrightarrow> parsed_files rc rx files = []"
    by simp
  ultimately show ?thesis
    by (auto simp add: main_eq Let_def)
qed

lemma main_read_msgs:
  "files \<noteq> [] \<Longrightarrow> set (map (read_msg rc rx) files) \<subseteq> set (fst (main rc rx files))"
  by (auto simp add: main_eq Let_def)

lemma main_skip_msgs:
  "set (skip_msgs (takeWhile (\<lambda>t. \<not> raises (snd t)) (parsed_files rc rx files)))
     \<subseteq> set (fst (main rc rx files))"
proof (cases "parsed_files rc rx files = []")
  case True
  then show ?thesis by simp
next
  case False
  then have ne: "files \<noteq> []" by auto
  show ?thesis
  proof (cases "some_raises rc rx files")
    case True
    with False ne show ?thesis by (auto simp add: main_eq Let_def)
  next
    case nr: False
    then have tw: "takeWhile (\<lambda>t. \<not> raises (snd t)) (parsed_files rc rx files) =
               parsed_files rc rx files"
      by (simp add: some_raises_def list_ex_iff)
    from False ne nr show ?thesis
      unfolding tw by (auto simp add: main_eq Let_def)
  qed
qed

lemma merged_sources_Cons:
  "merged_sources rc rx (f # fs) = merged_sources rc rx [f] @ merged_sources rc rx fs"
  using merged_sources_append [of rc rx "[f]" fs] by simp

lemma some_raises_Cons:
  "some_raises rc rx (f # fs) \<longleftrightarrow> some_raises rc rx [f] \<or> some_raises rc rx fs"
  using some_raises_append [of rc rx "[f]" fs] by simp

lemma skip_msgs_only_missing:
  "m \<in> set (skip_msgs ts) \<Longrightarrow> \<exists>f c. m = Skipped_missing f c"
  by (induction ts) (auto simp add: skip_msgs_Cons split: if_splits)

lemma read_msg_unsupported_iff:
  "read_msg rc rx f = Skipped_unsupported g \<longleftrightarrow> f = g \<and> reader_for g = None"
  by (auto simp add: read_msg_def split: option.splits)

lemma skipped_unsupported_in_main:
  "Skipped_unsupported g \<in> set (fst (main rc rx files)) \<longleftrightarrow>
     g \<in> set files \<and> reader_for g = None"
proof (cases "files = []")
  case True
  then show ?thesis by (simp add: main_def)
next
  case False
  have sk: "Skipped_unsupported g \<notin> set (skip_msgs ts)" for ts :: "(string \<times> 'a dataframe) list"
    using skip_msgs_only_missing [of "Skipped_unsupported g" ts] by auto
  have rd: "Skipped_unsupported g \<in> read_msg rc rx ` set files \<longleftrightarrow>
            g \<in> set files \<and> reader_for g = None"
    using read_msg_unsupported_iff [of rc rx _ g]
    by (metis (no_types, lifting) image_iff)
  from False show ?thesis
    by (simp add: main_eq Let_def sk rd)
qed

lemma reader_for_eq:
  "reader_for file =
     (if str_lower (path_suffix file) = ''.csv'' then Some Read_csv
      else if str_lower (path_suffix file) = ''.xlsx'' \<or> str_lower (path_suffix file) = ''.xls''
      then Some Read_excel
      else None)"
  by (auto simp add: reader_for_def supported_extensions_def Let_def)

subsection \<open>When lines 113 and 114 raise\<close>

lemma length_positions:
  "length (filter (\<lambda>i. cols ! i = k) [0..<length cols]) = count_list cols k"
proof (induction cols rule: rev_induct)
  case Nil
  show ?case by simp
next
  case (snoc x xs)
  have "filter (\<lambda>i. (xs @ [x]) ! i = k) [0..<length xs] =
        filter (\<lambda>i. xs ! i = k) [0..<length xs]"
    by (rule filter_cong) (auto simp add: nth_append)
  with snoc show ?case by simp
qed

lemma canonical_indexer_validated:
  assumes "missing_cols (normalize_columns df) = []"
  shows "canonical_indexer df =
         concat (map (\<lambda>k. filter (\<lambda>i. map normalize_label (df_columns df) ! i = k)
                           [0..<length (df_columns df)]) columns_lower)"
  using assms
  by (simp add: canonical_indexer_def get_indexer_def missing_cols_Nil_iff normalize_columns_def)

lemma length_canonical_indexer:
  assumes "missing_cols (normalize_columns df) = []"
  shows "length (canonical_indexer df) =
         sum_list (map (count_list (map normalize_label (df_columns df))) columns_lower)"
proof -
  have "length (filter (\<lambda>i. map normalize_label (df_columns df) ! i = k)
                  [0..<length (df_columns df)]) =
        count_list (map normalize_label (df_columns df)) k" for k
    using length_positions [of "map normalize_label (df_columns df)" k] by simp
  then show ?thesis
    by (simp add: canonical_indexer_validated [OF assms] length_concat comp_def)
qed

lemma reorder_ok_iff_length:
  assumes "missing_cols (normalize_columns df) = []"
  shows "reorder (normalize_columns df) = Inr (reordered df) \<longleftrightarrow>
         length (canonical_indexer df) = 16"
  using assms
  by (auto simp add: reorder_def getitem_def get_indexer_def set_columns_def take_columns_def
      canonical_indexer_def normalize_columns_def missing_cols_Nil_iff length_columns
      reordered_def project_rows_def)

lemma sum_list_all_one:
  fixes f :: "'a \<Rightarrow> nat"
  assumes "\<forall>k\<in>set ks. 1 \<le> f k"
  shows "length ks \<le> sum_list (map f ks)"
    and "sum_list (map f ks) = length ks \<longleftrightarrow> (\<forall>k\<in>set ks. f k = 1)"
proof -
  from assms show le: "length ks \<le> sum_list (map f ks)"
    by (induction ks) (auto simp add: Suc_le_eq add_strict_increasing2 less_Suc_eq_le)
  from assms show "sum_list (map f ks) = length ks \<longleftrightarrow> (\<forall>k\<in>set ks. f k = 1)"
  proof (induction ks)
    case Nil
    show ?case by simp
  next
    case (Cons k ks)
    then have 1: "1 \<le> f k" and rest: "\<forall>k\<in>set ks. 1 \<le> f k" by simp_all
    have "length ks \<le> sum_list (map f ks)"
      using rest by (induction ks) (auto simp add: Suc_le_eq add_strict_increasing2 less_Suc_eq_le)
    with 1 Cons.IH [OF rest] show ?case by auto
  qed
qed

lemma reorder_ok_iff_unique:
  assumes "missing_cols (normalize_columns df) = []"
  shows "reorder (normalize_columns df) = Inr (reordered df) \<longleftrightarrow>
         (\<forall>k\<in>set columns_lower. count_list (map normalize_label (df_columns df)) k = 1)"
proof -
  let ?hdr = "map normalize_label (df_columns df)"
  have "\<forall>k\<in>set columns_lower. 1 \<le> count_list ?hdr k"
  proof
    fix k assume "k \<in> set columns_lower"
    with assms have "k \<in> set ?hdr"
      by (auto simp add: missing_cols_Nil_iff normalize_columns_def)
    then have "count_list ?hdr k \<noteq> 0" by (simp only: count_list_0_iff) simp
    then show "1 \<le> count_list ?hdr k" by simp
  qed
  from sum_list_all_one(2) [OF this]
  have "sum_list (map (count_list ?hdr) columns_lower) = 16 \<longleftrightarrow>
        (\<forall>k\<in>set columns_lower. count_list ?hdr k = 1)"
    by (simp add: columns_lower_def length_columns)
  then show ?thesis
    by (simp add: reorder_ok_iff_length [OF assms] length_canonical_indexer [OF assms])
qed

lemma raises_iff_duplicate:
  "raises df \<longleftrightarrow>
     missing_cols (normalize_columns df) = [] \<and>
     (\<exists>k\<in>set columns_lower. count_list (map normalize_label (df_columns df)) k \<noteq> 1)"
  using table_outcome_cases [of df] reorder_ok_iff_unique [of df]
  by (auto simp add: raises_iff)

lemma concat_singletons:
  "\<forall>x\<in>set xs. length (f x) = 1 \<Longrightarrow> concat (map f xs) = map (\<lambda>x. hd (f x)) xs"
proof (induction xs)
  case Nil
  show ?case by simp
next
  case (Cons x xs)
  then have "length (f x) = 1" by simp
  then have "f x = [hd (f x)]"
    by (cases "f x") auto
  with Cons show ?case by simp
qed

lemma reorder_projection:
  assumes valid: "missing_cols (normalize_columns df) = []"
    and unique: "\<forall>k\<in>set columns_lower. count_list (map normalize_label (df_columns df)) k = 1"
  shows "reorder (normalize_columns df) =
           Inr \<lparr>df_columns = columns,
                df_rows = map (\<lambda>r. map (\<lambda>i. r ! i) (canonical_indexer df)) (df_rows df)\<rparr>"
    and "length (canonical_indexer df) = length columns"
    and "\<forall>j<length columns.
           canonical_indexer df ! j < length (df_columns df) \<and>
           normalize_label (df_columns df ! (canonical_indexer df ! j)) = columns_lower ! j"
proof -
  let ?hdr = "map normalize_label (df_columns df)"
  let ?pos = "\<lambda>k. filter (\<lambda>i. ?hdr ! i = k) [0..<length (df_columns df)]"
  show "reorder (normalize_columns df) =
           Inr \<lparr>df_columns = columns,
                df_rows = map (\<lambda>r. map (\<lambda>i. r ! i) (canonical_indexer df)) (df_rows df)\<rparr>"
    using reorder_ok_iff_unique [OF valid] unique
    by (simp add: reordered_def project_rows_def)
  have one: "\<forall>k\<in>set columns_lower. length (?pos k) = 1"
    using unique length_positions [of ?hdr] by simp
  have idx: "canonical_indexer df = map (\<lambda>k. hd (?pos k)) columns_lower"
    using concat_singletons [OF one] by (simp add: canonical_indexer_validated [OF valid])
  then show len: "length (canonical_indexer df) = length columns"
    by (simp add: columns_lower_def)
  show "\<forall>j<length columns.
           canonical_indexer df ! j < length (df_columns df) \<and>
           normalize_label (df_columns df ! (canonical_indexer df ! j)) = columns_lower ! j"
  proof (intro allI impI)
    fix j assume j: "j < length columns"
    then have k: "columns_lower ! j \<in> set columns_lower"
      by (simp add: columns_lower_def)
    with one have "length (?pos (columns_lower ! j)) = 1" by blast
    then have "hd (?pos (columns_lower ! j)) \<in> set (?pos (columns_lower ! j))"
      by (cases "?pos (columns_lower ! j)") auto
    moreover have "canonical_indexer df ! j = hd (?pos (columns_lower ! j))"
      using j by (simp add: idx columns_lower_def)
    ultimately show "canonical_indexer df ! j < length (df_columns df) \<and>
           normalize_label (df_columns df ! (canonical_indexer df ! j)) = columns_lower ! j"
      by auto
  qed
qed

section \<open>Claims about validation, reordering and the merge\<close>

text \<open>
  C1: on every table, the check of line 106 (run on the normalized header) returns the
  normalized canonical labels that are not among the table's normalized labels, in
  canonical order: a subsequence of the normalized canonical schema, with exactly the
  missing labels as elements, and empty iff every normalized canonical label is present.
\<close>

theorem missing_cols_exact:
  "missing_cols (normalize_columns df) =
     filter (\<lambda>c. c \<notin> set (map normalize_label (df_columns df))) (map normalize_label columns) \<and>
   (missing_cols (normalize_columns df) = [] \<longleftrightarrow>
      set (map normalize_label columns) \<subseteq> set (map normalize_label (df_columns df))) \<and>
   subseq (missing_cols (normalize_columns df)) (map normalize_label columns) \<and>
   set (missing_cols (normalize_columns df)) =
     set (map normalize_label columns) - set (map normalize_label (df_columns df))"
proof -
  have "missing_cols (normalize_columns df) =
     filter (\<lambda>c. c \<notin> set (map normalize_label (df_columns df))) (map normalize_label columns)"
    by (simp add: missing_cols_def normalize_columns_def columns_lower_normalized)
  then show ?thesis
    by (auto simp add: filter_empty_conv)
qed

lemma missing_cols_examples:
  "missing_cols (normalize_columns nogic_table) = [''gic''] \<and>
   missing_cols (normalize_columns good_table) = [] \<and>
   missing_cols (normalize_columns \<lparr>df_columns = [''gic'', '' Price-current''], df_rows = [[1 :: nat, 2]]\<rparr>) =
     [''external code'', ''processing group code'', ''processing group description'',
      ''best external description - current'', ''current nielsen item id'',
      ''predicted barcode - current'', ''retailer sku - current'', ''module'', ''brand'',
      ''url'', ''category'', ''allocation'', ''yes/no'', ''date'']"
  by code_simp

text \<open>
  C2: the claim says that every table that passed the check of line 106 is projected onto
  the 16 canonical columns. The code does so exactly when no canonical label occurs twice
  in the normalized header (lemmas \<open>reorder_projection\<close> and \<open>reorder_ok_iff_unique\<close>
  above). On the table \<^const>\<open>dup_table\<close>, whose columns \<^verbatim>\<open>Date\<close> and \<^verbatim>\<open>DATE\<close> both
  normalize to \<^verbatim>\<open>date\<close>, the check finds nothing missing, line 113 takes 17 columns
  and line 114 raises \<^verbatim>\<open>ValueError\<close> instead of producing a table.
\<close>

theorem reorder_duplicate_label_raises:
  "missing_cols (normalize_columns dup_table) = [] \<and>
   getitem (normalize_columns dup_table) columns_lower =
     Inr \<lparr>df_columns = columns_lower @ [''date''],
          df_rows = [[1, 2, 3, 4, 5, 6, 7, 8, 9, 10, 11, 12, 13, 14, 15, 16, 17]]\<rparr> \<and>
   reorder (normalize_columns dup_table) = Inl ValueError"
  by code_simp

text \<open>
  C6: the claim says that the projection of a table with duplicate normalized labels and
  no missing canonical column completes. On the archive \<^verbatim>\<open>good.csv\<close>, \<^verbatim>\<open>dup.csv\<close>,
  \<^verbatim>\<open>Good.XLSX\<close>, where \<^verbatim>\<open>dup.csv\<close> holds \<^const>\<open>dup_table\<close>, the three files are read,
  the \<^verbatim>\<open>ValueError\<close> of line 114 on the second is caught by nothing, and \<^verbatim>\<open>main\<close> ends
  with it: no merged table, no message for the file.
\<close>

theorem main_duplicate_label_uncaught:
  "outcome_of example_csv example_excel ''dup.csv'' = Reorder_raises ValueError \<and>
   main example_csv example_excel [''good.csv'', ''dup.csv'', ''Good.XLSX''] =
     ([Extracted 3, Read_ok ''good.csv'' 3, Read_ok ''dup.csv'' 1, Read_ok ''Good.XLSX'' 3],
      Uncaught ValueError)"
  by code_simp

text \<open>
  C7: for every archive, \<^verbatim>\<open>main\<close> ends with a merged table iff no table makes lines 113
  and 114 raise and at least one file is kept for the merge; the merged table then has the
  canonical header, and its rows are the rows of the kept tables, table after table in the
  order of the archive and row after row in the order of each table, each row cut down to
  the canonical columns. So the number of merged rows is the sum of the numbers of rows of
  the kept tables, and the kept tables of a first part of the archive come before those of
  the rest.
\<close>

theorem merged_is_concatenation:
  "snd (main rc rx files) =
     (if some_raises rc rx files then Uncaught ValueError
      else if merged_sources rc rx files = [] then No_output
      else Merged \<lparr>df_columns = columns,
                   df_rows = concat (map project_rows (merged_sources rc rx files))\<rparr>) \<and>
   length (concat (map project_rows (merged_sources rc rx files))) =
     sum_list (map len_df (merged_sources rc rx files)) \<and>
   merged_sources rc rx (files @ files') =
     merged_sources rc rx files @ merged_sources rc rx files' \<and>
   project_rows src = map (\<lambda>r. map (\<lambda>i. r ! i) (canonical_indexer src)) (df_rows src)"
proof -
  have "length (concat (map project_rows (merged_sources rc rx files))) =
        sum_list (map len_df (merged_sources rc rx files))"
    by (simp add: length_concat comp_def)
  then show ?thesis
    by (simp add: main_outcome stacked_def merged_sources_append project_rows_def)
qed

text \<open>
  Where no table of the archive makes lines 113 and 114 raise, a file whose parser raises,
  or whose table lacks canonical columns, is passed over and nothing else: \<^verbatim>\<open>main\<close> ends
  as it does on the archive without that file, with the tables kept of the files before it
  followed by those kept of the files after it, and the file's message is shown. The
  message of a parser that raises is always shown, the first loop is never left early; the
  message of missing columns is shown when the second loop gets to the file.
\<close>

lemma failure_leaves_rest:
  assumes "outcome_of rc rx f = Read_failure \<or> outcome_of rc rx f = Missing_columns cols"
  shows "snd (main rc rx (fs1 @ f # fs2)) = snd (main rc rx (fs1 @ fs2)) \<and>
         merged_sources rc rx (fs1 @ f # fs2) =
           merged_sources rc rx fs1 @ merged_sources rc rx fs2 \<and>
         (outcome_of rc rx f = Read_failure \<longrightarrow>
            Error_reading f \<in> set (fst (main rc rx (fs1 @ f # fs2)))) \<and>
         (outcome_of rc rx f = Missing_columns cols \<longrightarrow> \<not> some_raises rc rx fs1 \<longrightarrow>
            Skipped_missing f cols \<in> set (fst (main rc rx (fs1 @ f # fs2))))"
proof -
  have single: "merged_sources rc rx [f] = [] \<and> \<not> some_raises rc rx [f]"
  proof (cases "outcome_of rc rx f = Read_failure")
    case True
    then show ?thesis
      by (simp add: merged_sources_single some_raises_single outcome_read_failure)
  next
    case False
    with assms have "outcome_of rc rx f = Missing_columns cols" by simp
    then obtain df where "parse_file rc rx f = Some df"
      and "table_outcome df = Missing_columns cols"
      by (rule outcome_missing)
    then show ?thesis
      by (simp add: merged_sources_single some_raises_single raises_iff)
  qed
  have srcs: "merged_sources rc rx (fs1 @ f # fs2) =
              merged_sources rc rx fs1 @ merged_sources rc rx fs2"
    using single by (simp add: merged_sources_append merged_sources_Cons [of rc rx f fs2])
  have rs: "some_raises rc rx (fs1 @ f # fs2) = some_raises rc rx (fs1 @ fs2)"
    using single by (simp add: some_raises_append some_raises_Cons [of rc rx f fs2])
  have out: "snd (main rc rx (fs1 @ f # fs2)) = snd (main rc rx (fs1 @ fs2))"
    using srcs rs by (simp add: main_outcome merged_sources_append [of rc rx fs1 fs2])
  have rd: "Error_reading f \<in> set (fst (main rc rx (fs1 @ f # fs2)))"
    if "outcome_of rc rx f = Read_failure"
    using main_read_msgs [of "fs1 @ f # fs2" rc rx] outcome_read_failure(2) [OF that]
    by auto
  have ms: "Skipped_missing f cols \<in> set (fst (main rc rx (fs1 @ f # fs2)))"
    if m: "outcome_of rc rx f = Missing_columns cols" and nr: "\<not> some_raises rc rx fs1"
  proof -
    from m obtain df where p: "parse_file rc rx f = Some df"
      and c: "missing_cols (normalize_columns df) = cols" "cols \<noteq> []"
      and t: "table_outcome df = Missing_columns cols"
      by (rule outcome_missing)
    let ?P = "\<lambda>t. \<not> raises (snd t)"
    have ps: "parsed_files rc rx (fs1 @ f # fs2) =
              parsed_files rc rx fs1 @ (f, df) # parsed_files rc rx fs2"
      by (simp add: parsed_files_append parsed_files_Cons p)
    have "\<forall>t\<in>set (parsed_files rc rx fs1). ?P t"
      using nr by (auto simp add: some_raises_def list_ex_iff)
    moreover have "?P (f, df)" using t by (simp add: raises_iff)
    ultimately have "takeWhile ?P (parsed_files rc rx (fs1 @ f # fs2)) =
        parsed_files rc rx fs1 @ (f, df) # takeWhile ?P (parsed_files rc rx fs2)"
      by (simp add: ps takeWhile_append2)
    then have "Skipped_missing f cols \<in>
        set (skip_msgs (takeWhile ?P (parsed_files rc rx (fs1 @ f # fs2))))"
      using c by (simp add: skip_msgs_append skip_msgs_Cons)
    with main_skip_msgs [of rc rx "fs1 @ f # fs2"] show ?thesis by blast
  qed
  from out srcs rd ms show ?thesis by blast
qed

lemma failure_is_skipped:
  assumes "outcome_of rc rx f = Read_failure \<or> outcome_of rc rx f = Missing_columns cols"
  shows "snd (main rc rx (fs1 @ f # fs2)) =
           (if some_raises rc rx fs1 \<or> some_raises rc rx fs2 then Uncaught ValueError
            else if merged_sources rc rx fs1 @ merged_sources rc rx fs2 = [] then No_output
            else Merged \<lparr>df_columns = columns,
                   df_rows = concat (map project_rows
                     (merged_sources rc rx fs1 @ merged_sources rc rx fs2))\<rparr>) \<and>
         snd (main rc rx (fs1 @ f # fs2)) = snd (main rc rx (fs1 @ fs2)) \<and>
         (outcome_of rc rx f = Read_failure \<longrightarrow>
            Error_reading f \<in> set (fst (main rc rx (fs1 @ f # fs2)))) \<and>
         (outcome_of rc rx f = Missing_columns cols \<longrightarrow> \<not> some_raises rc rx fs1 \<longrightarrow>
            Skipped_missing f cols \<in> set (fst (main rc rx (fs1 @ f # fs2))))"
proof -
  from failure_leaves_rest [OF assms, of fs1 fs2]
  have out: "snd (main rc rx (fs1 @ f # fs2)) = snd (main rc rx (fs1 @ fs2))"
    and rest: "(outcome_of rc rx f = Read_failure \<longrightarrow>
            Error_reading f \<in> set (fst (main rc rx (fs1 @ f # fs2))))"
         "(outcome_of rc rx f = Missing_columns cols \<longrightarrow> \<not> some_raises rc rx fs1 \<longrightarrow>
            Skipped_missing f cols \<in> set (fst (main rc rx (fs1 @ f # fs2))))"
    by blast+
  have "snd (main rc rx (fs1 @ fs2)) =
           (if some_raises rc rx fs1 \<or> some_raises rc rx fs2 then Uncaught ValueError
            else if merged_sources rc rx fs1 @ merged_sources rc rx fs2 = [] then No_output
            else Merged \<lparr>df_columns = columns,
                   df_rows = concat (map project_rows
                     (merged_sources rc rx fs1 @ merged_sources rc rx fs2))\<rparr>)"
    by (simp add: main_outcome some_raises_append merged_sources_append stacked_def)
  with out rest show ?thesis by simp
qed

lemma failure_leaves_rest_example:
  "outcome_of example_csv example_excel ''sub/NOGIC.CSV'' = Missing_columns [''gic''] \<and>
   outcome_of example_csv example_excel ''broken.csv'' = Read_failure \<and>
   snd (main example_csv example_excel [''sub/NOGIC.CSV'', ''notes.txt'', ''broken.csv'', ''Good.XLSX'']) =
     snd (main example_csv example_excel [''notes.txt'', ''broken.csv'', ''Good.XLSX'']) \<and>
   snd (main example_csv example_excel [''notes.txt'', ''broken.csv'', ''Good.XLSX'']) =
     snd (main example_csv example_excel [''notes.txt'', ''Good.XLSX'']) \<and>
   Skipped_missing ''sub/NOGIC.CSV'' [''gic''] \<in>
     set (fst (main example_csv example_excel
       [''sub/NOGIC.CSV'', ''notes.txt'', ''broken.csv'', ''Good.XLSX''])) \<and>
   Error_reading ''broken.csv'' \<in>
     set (fst (main example_csv example_excel [''notes.txt'', ''broken.csv'', ''Good.XLSX''])) \<and>
   snd (main example_csv example_excel [''notes.txt'', ''Good.XLSX'']) =
     Merged \<lparr>df_columns = columns,
       df_rows =
        [[101, 102, 103, 104, 105, 106, 107, 108, 109, 110, 111, 112, 113, 114, 115, 116],
         [201, 202, 203, 204, 205, 206, 207, 208, 209, 210, 211, 212, 213, 214, 215, 216],
         [301, 302, 303, 304, 305, 306, 307, 308, 309, 310, 311, 312, 313, 314, 315, 316]]\<rparr>"
proof -
  have m: "outcome_of example_csv example_excel ''sub/NOGIC.CSV'' = Missing_columns [''gic'']"
    by code_simp
  have r: "outcome_of example_csv example_excel ''broken.csv'' = Read_failure"
    by code_simp
  have nr: "\<not> some_raises example_csv example_excel []"
    by (simp add: some_raises_def)
  have 1: "snd (main example_csv example_excel
              ([] @ ''sub/NOGIC.CSV'' # [''notes.txt'', ''broken.csv'', ''Good.XLSX''])) =
           snd (main example_csv example_excel
              ([] @ [''notes.txt'', ''broken.csv'', ''Good.XLSX'']))"
    and 2: "Skipped_missing ''sub/NOGIC.CSV'' [''gic''] \<in>
           set (fst (main example_csv example_excel
              ([] @ ''sub/NOGIC.CSV'' # [''notes.txt'', ''broken.csv'', ''Good.XLSX''])))"
    using failure_leaves_rest [of example_csv example_excel "''sub/NOGIC.CSV''" "[''gic'']"
        "[]" "[''notes.txt'', ''broken.csv'', ''Good.XLSX'']"] m nr
    by blast+
  have 3: "snd (main example_csv example_excel
              ([''notes.txt''] @ ''broken.csv'' # [''Good.XLSX''])) =
           snd (main example_csv example_excel ([''notes.txt''] @ [''Good.XLSX'']))"
    and 4: "Error_reading ''broken.csv'' \<in>
           set (fst (main example_csv example_excel
              ([''notes.txt''] @ ''broken.csv'' # [''Good.XLSX''])))"
    using failure_leaves_rest [of example_csv example_excel "''broken.csv''" "[]"
        "[''notes.txt'']" "[''Good.XLSX'']"] r
    by blast+
  have 5: "snd (main example_csv example_excel [''notes.txt'', ''Good.XLSX'']) =
     Merged \<lparr>df_columns = columns,
       df_rows =
        [[101, 102, 103, 104, 105, 106, 107, 108, 109, 110, 111, 112, 113, 114, 115, 116],
         [201, 202, 203, 204, 205, 206, 207, 208, 209, 210, 211, 212, 213, 214, 215, 216],
         [301, 302, 303, 304, 305, 306, 307, 308, 309, 310, 311, 312, 313, 314, 315, 316]]\<rparr>"
    by code_simp
  from 1 2 3 4 have
    "snd (main example_csv example_excel [''sub/NOGIC.CSV'', ''notes.txt'', ''broken.csv'', ''Good.XLSX'']) =
     snd (main example_csv example_excel [''notes.txt'', ''broken.csv'', ''Good.XLSX''])"
    "snd (main example_csv example_excel [''notes.txt'', ''broken.csv'', ''Good.XLSX'']) =
     snd (main example_csv example_excel [''notes.txt'', ''Good.XLSX''])"
    "Skipped_missing ''sub/NOGIC.CSV'' [''gic''] \<in>
     set (fst (main example_csv example_excel
       [''sub/NOGIC.CSV'', ''notes.txt'', ''broken.csv'', ''Good.XLSX'']))"
    "Error_reading ''broken.csv'' \<in>
     set (fst (main example_csv example_excel [''notes.txt'', ''broken.csv'', ''Good.XLSX'']))"
    by simp_all
  with m r 5 show ?thesis by blast
qed

text \<open>
  C8: the claim says that, for every archive, a file whose parser raises or whose table
  lacks canonical columns gets its message and does not keep the files after it from being
  normalized, checked and, if complete, merged. Lines 100 to 114 are outside every
  \<^verbatim>\<open>try\<close>, unlike the read of lines 61 to 70. On the archive \<^verbatim>\<open>dup.csv\<close>,
  \<^verbatim>\<open>sub/NOGIC.CSV\<close>, \<^verbatim>\<open>Good.XLSX\<close> the three files are read, line 114 raises
  \<^verbatim>\<open>ValueError\<close> on the first table, and \<^verbatim>\<open>main\<close> ends there: the missing column of
  \<^verbatim>\<open>sub/NOGIC.CSV\<close> is never shown and the complete table of \<^verbatim>\<open>Good.XLSX\<close> is not
  merged. With \<^verbatim>\<open>sub/NOGIC.CSV\<close> first its message is shown, and \<^verbatim>\<open>Good.XLSX\<close> is lost
  all the same. Without \<^verbatim>\<open>dup.csv\<close> the archive behaves as the claim says.
\<close>

theorem failure_lost_after_uncaught_error:
  "outcome_of example_csv example_excel ''sub/NOGIC.CSV'' = Missing_columns [''gic''] \<and>
   outcome_of example_csv example_excel ''Good.XLSX'' = Merged_file \<and>
   main example_csv example_excel [''dup.csv'', ''sub/NOGIC.CSV'', ''Good.XLSX''] =
     ([Extracted 3, Read_ok ''dup.csv'' 1, Read_ok ''sub/NOGIC.CSV'' 2, Read_ok ''Good.XLSX'' 3],
      Uncaught ValueError) \<and>
   main example_csv example_excel [''sub/NOGIC.CSV'', ''dup.csv'', ''Good.XLSX''] =
     ([Extracted 3, Read_ok ''sub/NOGIC.CSV'' 2, Read_ok ''dup.csv'' 1, Read_ok ''Good.XLSX'' 3,
       Skipped_missing ''sub/NOGIC.CSV'' [''gic'']],
      Uncaught ValueError) \<and>
   main example_csv example_excel [''sub/NOGIC.CSV'', ''Good.XLSX''] =
     ([Extracted 2, Read_ok ''sub/NOGIC.CSV'' 2, Read_ok ''Good.XLSX'' 3,
       Skipped_missing ''sub/NOGIC.CSV'' [''gic''], Merged_files 1 3],
      Merged \<lparr>df_columns = columns,
        df_rows =
         [[101, 102, 103, 104, 105, 106, 107, 108, 109, 110, 111, 112, 113, 114, 115, 116],
          [201, 202, 203, 204, 205, 206, 207, 208, 209, 210, 211, 212, 213, 214, 215, 216],
          [301, 302, 303, 304, 305, 306, 307, 308, 309, 310, 311, 312, 313, 314, 315, 316]]\<rparr>)"
  by code_simp

text \<open>
  C9, as amended: if at least one table was read and every table read lacks a canonical
  column, \<^verbatim>\<open>main\<close> ends without a merged table, its last message is the one of line 120
  (no files with complete columns), and before it every table read has its message of
  missing columns, in the order of the archive. If the archive is not empty and no table
  was read at all, \<^verbatim>\<open>main\<close> stops at line 73 with the message that no valid file was
  found, and line 120 is not reached. On the empty archive \<^verbatim>\<open>main\<close> stops at line 43
  with the warning that the archive is empty. The tables are those of the model: every
  label of their headers is a string.
\<close>

theorem no_complete_columns:
  "(parsed_files rc rx files \<noteq> [] \<longrightarrow>
    (\<forall>t\<in>set (parsed_files rc rx files). missing_cols (normalize_columns (snd t)) \<noteq> []) \<longrightarrow>
      main rc rx files =
        (Extracted (length files) # map (read_msg rc rx) files @
           map (\<lambda>t. Skipped_missing (fst t) (missing_cols (normalize_columns (snd t))))
             (parsed_files rc rx files) @
           [No_complete_columns],
         No_output)) \<and>
   (files \<noteq> [] \<longrightarrow> parsed_files rc rx files = [] \<longrightarrow>
      main rc rx files =
        (Extracted (length files) # map (read_msg rc rx) files @ [No_valid_files], No_output)) \<and>
   main rc rx [] = ([Zip_empty], No_output)"
proof (intro conjI impI)
  assume ne: "parsed_files rc rx files \<noteq> []"
    and all: "\<forall>t\<in>set (parsed_files rc rx files). missing_cols (normalize_columns (snd t)) \<noteq> []"
  let ?ps = "parsed_files rc rx files"
  have out: "table_outcome (snd t) = Missing_columns (missing_cols (normalize_columns (snd t)))"
    if "t \<in> set ?ps" for t
    using table_outcome_cases [of "snd t"] all that by auto
  have nr: "\<not> some_raises rc rx files"
    using out by (auto simp add: some_raises_def list_ex_iff raises_iff)
  have srcs: "merged_sources rc rx files = []"
    using out by (auto simp add: merged_sources_def filter_empty_conv)
  have "skip_msgs ts =
        map (\<lambda>t. Skipped_missing (fst t) (missing_cols (normalize_columns (snd t)))) ts"
    if "\<forall>t\<in>set ts. missing_cols (normalize_columns (snd t)) \<noteq> []" for ts :: "(string \<times> 'a dataframe) list"
    using that by (induction ts) (auto simp add: skip_msgs_Cons)
  with all have sk: "skip_msgs ?ps =
        map (\<lambda>t. Skipped_missing (fst t) (missing_cols (normalize_columns (snd t)))) ?ps"
    by blast
  from ne have "files \<noteq> []" by auto
  with ne nr srcs sk show "main rc rx files =
        (Extracted (length files) # map (read_msg rc rx) files @
           map (\<lambda>t. Skipped_missing (fst t) (missing_cols (normalize_columns (snd t)))) ?ps @
           [No_complete_columns],
         No_output)"
    by (simp add: main_eq Let_def)
next
  assume "files \<noteq> []" and "parsed_files rc rx files = []"
  then show "main rc rx files =
        (Extracted (length files) # map (read_msg rc rx) files @ [No_valid_files], No_output)"
    by (simp add: main_eq Let_def)
next
  show "main rc rx [] = ([Zip_empty], No_output)"
    by (simp add: main_def)
qed

theorem no_complete_columns_witness:
  "parsed_files example_csv example_excel [''sub/NOGIC.CSV'', ''broken.csv''] =
     [(''sub/NOGIC.CSV'', nogic_table)] \<and>
   missing_cols (normalize_columns nogic_table) = [''gic''] \<and>
   main example_csv example_excel [''sub/NOGIC.CSV'', ''broken.csv''] =
     ([Extracted 2, Read_ok ''sub/NOGIC.CSV'' 2, Error_reading ''broken.csv'',
       Skipped_missing ''sub/NOGIC.CSV'' [''gic''], No_complete_columns],
      No_output) \<and>
   parsed_files example_csv example_excel [''broken.csv'', ''notes.txt''] = [] \<and>
   main example_csv example_excel [''broken.csv'', ''notes.txt''] =
     ([Extracted 2, Error_reading ''broken.csv'', Skipped_unsupported ''notes.txt'',
       No_valid_files],
      No_output)"
proof -
  let ?files = "[''sub/NOGIC.CSV'', ''broken.csv'']"
  have ps: "parsed_files example_csv example_excel ?files = [(''sub/NOGIC.CSV'', nogic_table)]"
    by code_simp
  have ms: "missing_cols (normalize_columns nogic_table) = [''gic'']"
    by code_simp
  have rd: "read_msg example_csv example_excel ''sub/NOGIC.CSV'' = Read_ok ''sub/NOGIC.CSV'' 2"
    "read_msg example_csv example_excel ''broken.csv'' = Error_reading ''broken.csv''"
    "read_msg example_csv example_excel ''notes.txt'' = Skipped_unsupported ''notes.txt''"
    by code_simp+
  have 1: "main example_csv example_excel ?files =
     ([Extracted 2, Read_ok ''sub/NOGIC.CSV'' 2, Error_reading ''broken.csv'',
       Skipped_missing ''sub/NOGIC.CSV'' [''gic''], No_complete_columns],
      No_output)"
    using no_complete_columns [of example_csv example_excel ?files]
    by (simp add: ps ms rd)
  have ps': "parsed_files example_csv example_excel [''broken.csv'', ''notes.txt''] = []"
    by code_simp
  have 2: "main example_csv example_excel [''broken.csv'', ''notes.txt''] =
     ([Extracted 2, Error_reading ''broken.csv'', Skipped_unsupported ''notes.txt'',
       No_valid_files],
      No_output)"
    using no_complete_columns [of example_csv example_excel "[''broken.csv'', ''notes.txt'']"]
    by (simp add: ps' rd)
  from ps ms 1 ps' 2 show ?thesis by blast
qed

text \<open>
  The claim C9 as stated fails where no table survives because none was read: the archive
  with the one file \<^verbatim>\<open>broken.csv\<close>, on which the parser raises, keeps no table, and the
  message of line 120 is not shown.
\<close>

theorem no_table_read_counterexample:
  "merged_sources example_csv example_excel [''broken.csv''] = [] \<and>
   main example_csv example_excel [''broken.csv''] =
     ([Extracted 1, Error_reading ''broken.csv'', No_valid_files], No_output) \<and>
   No_complete_columns \<notin> set (fst (main example_csv example_excel [''broken.csv'']))"
  by code_simp

text \<open>
  C10: the loop of lines 53 to 70 decides by the lowercased suffix of the file's name:
  \<^verbatim>\<open>.csv\<close> is parsed by \<^verbatim>\<open>read_csv\<close>, \<^verbatim>\<open>.xlsx\<close> and \<^verbatim>\<open>.xls\<close> by \<^verbatim>\<open>read_excel\<close>,
  and only a file with another lowercased suffix is skipped as unsupported. So in
  \<^verbatim>\<open>main\<close> the message of an unsupported file is shown for exactly the files of the
  archive whose lowercased suffix is none of the three, and a file with one of them gets
  the message of its parser (read, or error while reading). \<^verbatim>\<open>DATA.CSV\<close> goes to
  \<^verbatim>\<open>read_csv\<close> and \<^verbatim>\<open>Data.XLSX\<close> to \<^verbatim>\<open>read_excel\<close>, whatever the parsers are, and two
  files whose suffixes differ in case only go to the same parser.
\<close>

theorem extension_dispatch_case_insensitive:
  "read_loop rc rx (file # files) (all_dfs, valid_files, msgs) =
     (if str_lower (path_suffix file) = ''.csv''
      then (case rc file of
              Some df \<Rightarrow>
                read_loop rc rx files
                  (all_dfs @ [df], valid_files @ [file], msgs @ [Read_ok file (len_df df)])
            | None \<Rightarrow> read_loop rc rx files (all_dfs, valid_files, msgs @ [Error_reading file]))
      else if str_lower (path_suffix file) = ''.xlsx'' \<or> str_lower (path_suffix file) = ''.xls''
      then (case rx file of
              Some df \<Rightarrow>
                read_loop rc rx files
                  (all_dfs @ [df], valid_files @ [file], msgs @ [Read_ok file (len_df df)])
            | None \<Rightarrow> read_loop rc rx files (all_dfs, valid_files, msgs @ [Error_reading file]))
      else read_loop rc rx files (all_dfs, valid_files, msgs @ [Skipped_unsupported file])) \<and>
   (Skipped_unsupported file \<in> set (fst (main rc rx files)) \<longleftrightarrow>
      file \<in> set files \<and>
      str_lower (path_suffix file) \<noteq> ''.csv'' \<and>
      str_lower (path_suffix file) \<noteq> ''.xlsx'' \<and>
      str_lower (path_suffix file) \<noteq> ''.xls'') \<and>
   (file \<in> set files \<longrightarrow> str_lower (path_suffix file) = ''.csv'' \<longrightarrow>
      (case rc file of
         Some df \<Rightarrow> Read_ok file (len_df df)
       | None \<Rightarrow> Error_reading file) \<in> set (fst (main rc rx files))) \<and>
   (file \<in> set files \<longrightarrow>
      str_lower (path_suffix file) = ''.xlsx'' \<or> str_lower (path_suffix file) = ''.xls'' \<longrightarrow>
      (case rx file of
         Some df \<Rightarrow> Read_ok file (len_df df)
       | None \<Rightarrow> Error_reading file) \<in> set (fst (main rc rx files))) \<and>
   read_loop rc rx [''DATA.CSV''] ([], [], []) =
     (case rc ''DATA.CSV'' of
        Some df \<Rightarrow> ([df], [''DATA.CSV''], [Read_ok ''DATA.CSV'' (len_df df)])
      | None \<Rightarrow> ([], [], [Error_reading ''DATA.CSV''])) \<and>
   read_loop rc rx [''Data.XLSX''] ([], [], []) =
     (case rx ''Data.XLSX'' of
        Some df \<Rightarrow> ([df], [''Data.XLSX''], [Read_ok ''Data.XLSX'' (len_df df)])
      | None \<Rightarrow> ([], [], [Error_reading ''Data.XLSX''])) \<and>
   (str_lower (path_suffix f) = str_lower (path_suffix g) \<longrightarrow> reader_for f = reader_for g)"
proof -
  have ex: "reader_for ''DATA.CSV'' = Some Read_csv" "reader_for ''Data.XLSX'' = Some Read_excel"
    by code_simp+
  have step: "read_loop rc rx (file # files) (all_dfs, valid_files, msgs) =
     (if str_lower (path_suffix file) = ''.csv''
      then (case rc file of
              Some df \<Rightarrow>
                read_loop rc rx files
                  (all_dfs @ [df], valid_files @ [file], msgs @ [Read_ok file (len_df df)])
            | None \<Rightarrow> read_loop rc rx files (all_dfs, valid_files, msgs @ [Error_reading file]))
      else if str_lower (path_suffix file) = ''.xlsx'' \<or> str_lower (path_suffix file) = ''.xls''
      then (case rx file of
              Some df \<Rightarrow>
                read_loop rc rx files
                  (all_dfs @ [df], valid_files @ [file], msgs @ [Read_ok file (len_df df)])
            | None \<Rightarrow> read_loop rc rx files (all_dfs, valid_files, msgs @ [Error_reading file]))
      else read_loop rc rx files (all_dfs, valid_files, msgs @ [Skipped_unsupported file]))"
    by (simp add: reader_for_eq read_file_def)
  have skip: "Skipped_unsupported file \<in> set (fst (main rc rx files)) \<longleftrightarrow>
      file \<in> set files \<and>
      str_lower (path_suffix file) \<noteq> ''.csv'' \<and>
      str_lower (path_suffix file) \<noteq> ''.xlsx'' \<and>
      str_lower (path_suffix file) \<noteq> ''.xls''"
    by (auto simp add: skipped_unsupported_in_main reader_for_eq)
  have msg: "read_msg rc rx file \<in> set (fst (main rc rx files))" if "file \<in> set files"
  proof -
    from that have "files \<noteq> []" by auto
    from main_read_msgs [OF this, of rc rx] that show ?thesis by auto
  qed
  have csv: "(case rc file of Some df \<Rightarrow> Read_ok file (len_df df) | None \<Rightarrow> Error_reading file)
      \<in> set (fst (main rc rx files))"
    if "file \<in> set files" "str_lower (path_suffix file) = ''.csv''"
    using msg [OF that(1)] that(2)
    by (simp add: read_msg_def reader_for_eq read_file_def split: option.splits)
  have xls: "(case rx file of Some df \<Rightarrow> Read_ok file (len_df df) | None \<Rightarrow> Error_reading file)
      \<in> set (fst (main rc rx files))"
    if "file \<in> set files"
      "str_lower (path_suffix file) = ''.xlsx'' \<or> str_lower (path_suffix file) = ''.xls''"
    using msg [OF that(1)] that(2)
    by (auto simp add: read_msg_def reader_for_eq read_file_def split: option.splits)
  have l1: "read_loop rc rx [''DATA.CSV''] ([], [], []) =
     (case rc ''DATA.CSV'' of
        Some df \<Rightarrow> ([df], [''DATA.CSV''], [Read_ok ''DATA.CSV'' (len_df df)])
      | None \<Rightarrow> ([], [], [Error_reading ''DATA.CSV'']))"
    by (simp add: ex read_file_def split: option.splits)
  have l2: "read_loop rc rx [''Data.XLSX''] ([], [], []) =
     (case rx ''Data.XLSX'' of
        Some df \<Rightarrow> ([df], [''Data.XLSX''], [Read_ok ''Data.XLSX'' (len_df df)])
      | None \<Rightarrow> ([], [], [Error_reading ''Data.XLSX'']))"
    by (simp add: ex read_file_def split: option.splits)
  have ci: "str_lower (path_suffix f) = str_lower (path_suffix g) \<longrightarrow> reader_for f = reader_for g"
    by (simp add: reader_for_eq)
  from step skip csv xls l1 l2 ci show ?thesis by blast
qed

theorem extension_dispatch_case_insensitive_witness:
  "''Good.XLSX'' \<in> set [''notes.txt'', ''Good.XLSX''] \<and>
   str_lower (path_suffix ''Good.XLSX'') = ''.xlsx'' \<and>
   example_excel ''Good.XLSX'' = Some good_table \<and>
   Read_ok ''Good.XLSX'' 3 \<in>
     set (fst (main example_csv example_excel [''notes.txt'', ''Good.XLSX''])) \<and>
   Skipped_unsupported ''Good.XLSX'' \<notin>
     set (fst (main example_csv example_excel [''notes.txt'', ''Good.XLSX''])) \<and>
   ''sub/NOGIC.CSV'' \<in> set [''sub/NOGIC.CSV''] \<and>
   str_lower (path_suffix ''sub/NOGIC.CSV'') = ''.csv'' \<and>
   example_csv ''sub/NOGIC.CSV'' = Some nogic_table \<and>
   Read_ok ''sub/NOGIC.CSV'' 2 \<in> set (fst (main example_csv example_excel [''sub/NOGIC.CSV''])) \<and>
   str_lower (path_suffix ''sub/NOGIC.CSV'') = str_lower (path_suffix ''nogic.csv'') \<and>
   reader_for ''sub/NOGIC.CSV'' = reader_for ''nogic.csv''"
proof -
  let ?fs = "[''notes.txt'', ''Good.XLSX'']"
  have m: "''Good.XLSX'' \<in> set ?fs" by simp
  have x: "str_lower (path_suffix ''Good.XLSX'') = ''.xlsx''" by code_simp
  have t: "example_excel ''Good.XLSX'' = Some good_table" by (simp add: example_excel_def)
  have n: "len_df good_table = 3" by (simp add: len_df_def good_table_def)
  note inst = extension_dispatch_case_insensitive
    [of example_csv example_excel "''Good.XLSX''" "?fs" "[]" "[]" "[]" "[]" "[]"]
  from inst m x have "(case example_excel ''Good.XLSX'' of
         Some df \<Rightarrow> Read_ok ''Good.XLSX'' (len_df df)
       | None \<Rightarrow> Error_reading ''Good.XLSX'') \<in> set (fst (main example_csv example_excel ?fs))"
    by blast
  then have 1: "Read_ok ''Good.XLSX'' 3 \<in> set (fst (main example_csv example_excel ?fs))"
    by (simp add: t n)
  from inst x have 2: "Skipped_unsupported ''Good.XLSX'' \<notin>
     set (fst (main example_csv example_excel ?fs))"
    by blast
  have m': "''sub/NOGIC.CSV'' \<in> set [''sub/NOGIC.CSV'']" by simp
  have c: "str_lower (path_suffix ''sub/NOGIC.CSV'') = ''.csv''" by code_simp
  have t': "example_csv ''sub/NOGIC.CSV'' = Some nogic_table" by (simp add: example_csv_def)
  have n': "len_df nogic_table = 2" by (simp add: len_df_def nogic_table_def)
  note inst' = extension_dispatch_case_insensitive
    [of example_csv example_excel "''sub/NOGIC.CSV''" "[''sub/NOGIC.CSV'']" "[]" "[]" "[]"
      "''sub/NOGIC.CSV''" "''nogic.csv''"]
  from inst' m' c have "(case example_csv ''sub/NOGIC.CSV'' of
         Some df \<Rightarrow> Read_ok ''sub/NOGIC.CSV'' (len_df df)
       | None \<Rightarrow> Error_reading ''sub/NOGIC.CSV'')
       \<in> set (fst (main example_csv example_excel [''sub/NOGIC.CSV'']))"
    by blast
  then have 3: "Read_ok ''sub/NOGIC.CSV'' 2 \<in>
      set (fst (main example_csv example_excel [''sub/NOGIC.CSV'']))"
    by (simp add: t' n')
  have h: "str_lower (path_suffix ''sub/NOGIC.CSV'') = str_lower (path_suffix ''nogic.csv'')"
    by code_simp
  with inst' have 4: "reader_for ''sub/NOGIC.CSV'' = reader_for ''nogic.csv''"
    by blast
  from m x t 1 2 m' c t' 3 h 4 show ?thesis by blast
qed

end
